theory Spec2Isabelle
  imports Main "HOL-Library.Multiset"
begin

section \<open>Strings\<close>

text \<open>
  Channel names, section names and ids are JavaScript strings; they are modelled as
  \<open>string\<close> (a list of characters). The three string tests used by the rules are
  \<open>String.prototype.startsWith\<close>, \<open>endsWith\<close> and \<open>includes\<close>.
\<close>

definition startsWith :: "string \<Rightarrow> string \<Rightarrow> bool" where
  "startsWith s p = (take (length p) s = p)"

definition endsWith :: "string \<Rightarrow> string \<Rightarrow> bool" where
  "endsWith s p = (length p \<le> length s \<and> drop (length s - length p) s = p)"

fun includes_js :: "string \<Rightarrow> string \<Rightarrow> bool" where
  "includes_js [] k = (k = [])"
| "includes_js (c # cs) k = (startsWith (c # cs) k \<or> includes_js cs k)"

text \<open>
  A missing field of a parsed JSON object reads as \<open>undefined\<close>. The string
  methods convert their argument with \<open>ToString\<close>, and \<open>ToString(undefined)\<close> is the
  nine characters \<open>undefined\<close>.
\<close>

definition ToString :: "string option \<Rightarrow> string" where
  "ToString v = (case v of None \<Rightarrow> ''undefined'' | Some s \<Rightarrow> s)"

section \<open>Sidebar rules\<close>

text \<open>
  \<open>interface RuleJSON\<close>: the discriminator \<open>type\<close>, the destination
  \<open>sidebar_section\<close> and the optional type-specific fields. The discriminator is kept
  a plain string, since the object comes out of \<open>JSON.parse\<close> unchecked.
\<close>

record RuleJSON =
  rule_type :: string
  sidebar_section :: string
  rule_prefix :: "string option"
  rule_suffix :: "string option"
  rule_keyword :: "string option"

text \<open>
  The class hierarchy under \<open>SidebarRule\<close>: each subclass carries the destination
  section id and its matching value (which is \<open>undefined\<close> when the field was absent).
\<close>

datatype SidebarRule =
    PrefixSidebarRule string "string option"
  | SuffixSidebarRule string "string option"
  | KeywordSidebarRule string "string option"

fun sidebarSectionId :: "SidebarRule \<Rightarrow> string" where
  "sidebarSectionId (PrefixSidebarRule sid v) = sid"
| "sidebarSectionId (SuffixSidebarRule sid v) = sid"
| "sidebarSectionId (KeywordSidebarRule sid v) = sid"

fun applies :: "SidebarRule \<Rightarrow> string \<Rightarrow> bool" where
  "applies (PrefixSidebarRule sid v) channelName = startsWith channelName (ToString v)"
| "applies (SuffixSidebarRule sid v) channelName = endsWith channelName (ToString v)"
| "applies (KeywordSidebarRule sid v) channelName = includes_js channelName (ToString v)"

text \<open>A thrown \<open>Error\<close>, with its message.\<close>

datatype error = Error string

text \<open>\<open>SidebarRule.fromJSON\<close>: a \<open>switch\<close> on \<open>json.type\<close> whose default throws.\<close>

definition fromJSON :: "string \<Rightarrow> RuleJSON \<Rightarrow> error + SidebarRule" where
  "fromJSON sid json =
     (if rule_type json = ''prefix'' then Inr (PrefixSidebarRule sid (rule_prefix json))
      else if rule_type json = ''suffix'' then Inr (SuffixSidebarRule sid (rule_suffix json))
      else if rule_type json = ''keyword'' then Inr (KeywordSidebarRule sid (rule_keyword json))
      else Inl (Error (''Unknown rule type: '' @ rule_type json)))"

text \<open>
  Rule resolution in the planning loop:
  \<open>sidebarRules.find(r => r.applies(channel.name))\<close>.
\<close>

definition findRule :: "SidebarRule list \<Rightarrow> string \<Rightarrow> SidebarRule option" where
  "findRule sidebarRules channelName = find (\<lambda>r. applies r channelName) sidebarRules"

section \<open>Pattern mining\<close>

text \<open>
  A JavaScript \<open>Map\<close> keeps its entries in insertion order: \<open>set\<close> on a key that
  is present replaces the value where it stands, \<open>set\<close> on a new key appends the
  entry. It is modelled as an association list with distinct keys in that order;
  \<open>get\<close> is \<open>map_of\<close>.
\<close>

fun Map_set :: "'k \<Rightarrow> 'v \<Rightarrow> ('k \<times> 'v) list \<Rightarrow> ('k \<times> 'v) list" where
  "Map_set k v [] = [(k, v)]"
| "Map_set k v (e # es) = (if fst e = k then (k, v) # es else e # Map_set k v es)"

text \<open>
  \<open>s.split('-')\<close> cuts at every separator: a string with \<open>n\<close> separators gives
  \<open>n + 1\<close> segments, some of them possibly empty, and the empty string gives one
  empty segment. \<open>parts.join('-')\<close> puts the separator between neighbours.
\<close>

fun split :: "char \<Rightarrow> string \<Rightarrow> string list" where
  "split sep [] = [[]]"
| "split sep (c # cs) =
     (if c = sep then [] # split sep cs
      else (case split sep cs of [] \<Rightarrow> [[c]] | seg # segs \<Rightarrow> (c # seg) # segs))"

fun join :: "char \<Rightarrow> string list \<Rightarrow> string" where
  "join sep [] = []"
| "join sep [s] = s"
| "join sep (s # t # ss) = s @ sep # join sep (t # ss)"

text \<open>
  \<open>getPrefixes\<close>: the outer loop runs over the names, the inner loop over the indices
  of \<open>firstFourParts\<close>; \<open>slice(0, -1)\<close> is \<open>butlast\<close>, \<open>slice(0, 4)\<close> is
  \<open>take 4\<close>, and \<open>get(prefix) || 0\<close> reads a missing (or zero) count as 0.
\<close>

definition countPrefix :: "string \<Rightarrow> (string \<times> nat) list \<Rightarrow> (string \<times> nat) list" where
  "countPrefix prefix prefixCandidates =
     Map_set prefix ((case map_of prefixCandidates prefix of None \<Rightarrow> 0 | Some n \<Rightarrow> n) + 1)
       prefixCandidates"

definition countName :: "string \<Rightarrow> (string \<times> nat) list \<Rightarrow> (string \<times> nat) list" where
  "countName name prefixCandidates =
     (let parts = split CHR ''-'' name;
          partsWithoutLast = butlast parts;
          firstFourParts = take 4 partsWithoutLast
      in fold (\<lambda>i. countPrefix (join CHR ''-'' (take (i + 1) firstFourParts)))
           [0 ..< length firstFourParts] prefixCandidates)"

definition getPrefixes :: "string list \<Rightarrow> (string \<times> nat) list" where
  "getPrefixes channelNames = fold countName channelNames []"

text \<open>
  \<open>getSuffixes\<close>: every name is mirrored (\<open>split('-').reverse().join('-')\<close>), the
  prefixes of the mirrored names are counted, and a second \<open>Map\<close> is filled from the
  entries of the first, in their order, under the mirrored keys.
\<close>

definition mirror :: "string \<Rightarrow> string" where
  "mirror name = join CHR ''-'' (rev (split CHR ''-'' name))"

definition getSuffixes :: "string list \<Rightarrow> (string \<times> nat) list" where
  "getSuffixes channelNames =
     (let reversedNames = map mirror channelNames;
          prefixes = getPrefixes reversedNames
      in fold (\<lambda>(key, value) suffixes. Map_set (mirror key) value suffixes) prefixes [])"

text \<open>
  The counting rule in the words of the specification: the candidates of a name are
  the leading runs, of length 1 up to \<open>k\<close>, of its segments without the last one and
  cut to four, joined with the separator; the count of a key is the number of times it
  occurs among the candidates of all names. \<open>reverse_keyed\<close> turns every key of a
  table of counts around and keeps its count.
\<close>

definition candidates :: "string \<Rightarrow> string list" where
  "candidates name =
     (let segs = take 4 (butlast (split CHR ''-'' name))
      in map (\<lambda>n. join CHR ''-'' (take n segs)) [1 ..< Suc (length segs)])"

definition occurrences :: "string list \<Rightarrow> string \<Rightarrow> nat" where
  "occurrences names key = count_list (concat (map candidates names)) key"

definition reverse_keyed :: "(string \<times> nat) list \<Rightarrow> (string \<times> nat) list" where
  "reverse_keyed counts = map (\<lambda>(key, n). (mirror key, n)) counts"

section \<open>Sections, channels and planned moves\<close>

record SidebarSectionJSON =
  channel_section_id :: string
  json_name :: string
  json_type :: string
  channel_ids :: "string list"

record SidebarSection =
  section_id :: string
  section_name :: string
  channelIds :: "string list"

definition SidebarSection_fromJSON :: "SidebarSectionJSON \<Rightarrow> SidebarSection" where
  "SidebarSection_fromJSON json =
     \<lparr>section_id = channel_section_id json, section_name = json_name json,
      channelIds = channel_ids json\<rparr>"

definition includesChannel :: "SidebarSection \<Rightarrow> string \<Rightarrow> bool" where
  "includesChannel s channelId = (channelId \<in> set (channelIds s))"

record ChannelJSON =
  channel_id :: string
  channel_name :: string
  is_channel :: bool
  is_member :: bool

record SidebarMove =
  channelId :: string
  fromSidebarSectionId :: "string option"
  toSidebarSectionId :: string

text \<open>\<open>getSidebarSection\<close>: \<open>sidebarSections.find(s => s.id === id)\<close>.\<close>

definition getSidebarSection :: "SidebarSection list \<Rightarrow> string \<Rightarrow> SidebarSection option" where
  "getSidebarSection sidebarSections i = find (\<lambda>s. section_id s = i) sidebarSections"

text \<open>
  \<open>fromSidebarSection?.id || null\<close>: \<open>undefined\<close> becomes \<open>null\<close>, and so does the
  empty string, which is falsy.
\<close>

definition orNull :: "string option \<Rightarrow> string option" where
  "orNull v = (case v of None \<Rightarrow> None | Some s \<Rightarrow> if s = [] then None else Some s)"

text \<open>
  The \<open>channels\<close> map: the channels that are real channels and of which the user is a
  member, keyed by id, in the order of \<open>getChannels\<close>.
\<close>

definition channelsMap :: "ChannelJSON list \<Rightarrow> (string \<times> ChannelJSON) list" where
  "channelsMap allChannels =
     (let realChannels = filter is_channel allChannels;
          memberChannels = filter is_member realChannels
      in fold (\<lambda>c channels. Map_set (channel_id c) c channels) memberChannels [])"

text \<open>
  One round of the planning loop over \<open>channels\<close>. The state is the pair of
  \<open>totalMatches\<close> and \<open>sidebarMoves\<close>; every \<open>continue\<close> leaves the move list as it
  is.
\<close>

definition planChannel ::
  "SidebarRule list \<Rightarrow> SidebarSection list \<Rightarrow> string \<times> ChannelJSON \<Rightarrow>
   nat \<times> SidebarMove list \<Rightarrow> nat \<times> SidebarMove list" where
  "planChannel sidebarRules sidebarSections entry st =
     (case entry of (cid, channel) \<Rightarrow>
      case st of (totalMatches, sidebarMoves) \<Rightarrow>
       (case findRule sidebarRules (channel_name channel) of
          None \<Rightarrow> (totalMatches, sidebarMoves)
        | Some rule \<Rightarrow>
           (case getSidebarSection sidebarSections (sidebarSectionId rule) of
              None \<Rightarrow> (totalMatches + 1, sidebarMoves)
            | Some toSidebarSection \<Rightarrow>
               if includesChannel toSidebarSection cid then (totalMatches + 1, sidebarMoves)
               else
                 (let fromSidebarSection = find (\<lambda>s. includesChannel s cid) sidebarSections
                  in (totalMatches + 1,
                      sidebarMoves @
                        [\<lparr>channelId = cid,
                          fromSidebarSectionId = orNull (map_option section_id fromSidebarSection),
                          toSidebarSectionId = section_id toSidebarSection\<rparr>])))))"

definition calculateMoves ::
  "SidebarRule list \<Rightarrow> SidebarSection list \<Rightarrow> (string \<times> ChannelJSON) list \<Rightarrow>
   nat \<times> SidebarMove list" where
  "calculateMoves sidebarRules sidebarSections channels =
     fold (planChannel sidebarRules sidebarSections) channels (0, [])"

section \<open>The rate limiter\<close>

text \<open>
  \<open>RateLimiter.wait\<close>, for one caller at a time and with a clock that is read, not
  guessed: \<open>now\<close> is the reading of \<open>Date.now()\<close> on entry, and a \<open>sleep\<close> of
  \<open>waitTime\<close> ends at \<open>now + waitTime\<close>. The result is the new list of timestamps and
  the time at which the call returns. With \<open>limit = 0\<close> and nothing to wait for,
  \<open>timestamps[0]\<close> is \<open>undefined\<close>, \<open>waitTime\<close> is \<open>NaN\<close>, and the call recurs
  without ever sleeping or returning: this is \<open>None\<close>.
\<close>

function wait :: "nat \<Rightarrow> int \<Rightarrow> int list \<Rightarrow> int \<Rightarrow> (int list \<times> int) option" where
  "wait limit intervalMs timestamps now =
     (let kept = filter (\<lambda>t. now - t < intervalMs) timestamps
      in if limit \<le> length kept
         then (case kept of
                 [] \<Rightarrow> None
               | oldest # _ \<Rightarrow>
                   (let waitTime = oldest + intervalMs - now
                    in if 0 < waitTime then wait limit intervalMs kept (now + waitTime)
                       else wait limit intervalMs kept now))
         else Some (kept @ [now], now))"
  by pat_completeness auto
termination
proof (relation "measure (\<lambda>(limit, intervalMs, timestamps, now).
                    length (filter (\<lambda>t. now - t < intervalMs) timestamps))", goal_cases)
  case 1
  show ?case by simp
next
  case (2 limit intervalMs timestamps now kept oldest rest waitTime)
  from 2(1,3) have k: "filter (\<lambda>t. now - t < intervalMs) timestamps = oldest # rest"
    by simp
  have gone: "\<not> now + waitTime - oldest < intervalMs" using 2(4) by simp
  have "length (filter (\<lambda>t. now + waitTime - t < intervalMs) rest) < Suc (length rest)"
    by (simp add: le_imp_less_Suc)
  then show ?case unfolding 2(1) by (simp add: k gone)
next
  case (3 limit intervalMs timestamps now kept oldest rest waitTime)
  have "oldest \<in> set kept" unfolding 3(3) by simp
  then have "now - oldest < intervalMs" unfolding 3(1) by simp
  with 3(4,5) show ?case by simp
qed

section \<open>Executing the moves\<close>

text \<open>
  The answer of \<open>SlackClient.sidebarMove\<close>: the parsed body, of which the loop reads
  \<open>ok\<close>. The request itself can fail (a socket error, a body that is not JSON): the
  promise is then rejected and the \<open>await\<close> throws, which is \<open>Inl\<close> here. The answer
  may depend on what was asked before, so the collaborator is a function of the number
  of calls made so far and of the move.
\<close>

record MoveResult =
  ok :: bool
  move_error :: "string option"

type_synonym RelocationService = "nat \<Rightarrow> SidebarMove \<Rightarrow> error + MoveResult"

text \<open>
  The state of the write loop: the requests sent to the collaborator so far, and the
  two lists \<open>successfulMoves\<close> and \<open>errors\<close>. Each round first awaits
  \<open>limiter.wait()\<close> of a \<open>RateLimiter(20, 60000)\<close>, which returns after a delay
  (\<open>wait_admits\<close> below) and touches nothing the loop reads, and then draws the progress
  bar; neither is part of the state.
\<close>

record Executor =
  calls :: "SidebarMove list"
  successfulMoves :: "SidebarMove list"
  errors :: "(SidebarMove \<times> MoveResult) list"

fun executeMoves ::
  "RelocationService \<Rightarrow> SidebarMove list \<Rightarrow> Executor \<Rightarrow> error option \<times> Executor" where
  "executeMoves sidebarMove [] st = (None, st)"
| "executeMoves sidebarMove (move # rest) st =
     (case sidebarMove (length (calls st)) move of
        Inl e \<Rightarrow> (Some e, st\<lparr>calls := calls st @ [move]\<rparr>)
      | Inr result \<Rightarrow>
          if ok result
          then executeMoves sidebarMove rest
                 (st\<lparr>calls := calls st @ [move],
                     successfulMoves := successfulMoves st @ [move]\<rparr>)
          else executeMoves sidebarMove rest
                 (st\<lparr>calls := calls st @ [move],
                     errors := errors st @ [(move, result)]\<rparr>))"

section \<open>The program\<close>

text \<open>
  What a run reads from outside: the rules file (\<open>None\<close> when reading or parsing
  throws), the three environment variables, and the answers of the Slack client.
\<close>

record World =
  readRules :: "string \<Rightarrow> RuleJSON list option"
  SLACK_WORKSPACE :: "string option"
  SLACK_XOXC_TOKEN :: "string option"
  SLACK_XOXD_TOKEN :: "string option"
  ping :: "error + bool"
  getSidebarList :: "error + SidebarSectionJSON list"
  getChannels :: "error + ChannelJSON list"
  sidebarMove :: RelocationService

text \<open>
  How a run ends: the exits with status 1, the three reports that end with status 0
  before anything is written, the report of the write loop, and an exception that
  reaches \<open>main().catch\<close>.
\<close>

datatype Report =
    RulesFileUnreadable string
  | MissingEnvironment
  | CannotConnect
  | SectionNotFound string
  | Crashed error
  | RuleSuggestions
  | AlreadyOrganised nat
  | DryRun "SidebarMove list"
  | Organised "SidebarMove list" "(SidebarMove \<times> MoveResult) list"

definition truthy :: "string option \<Rightarrow> bool" where
  "truthy v = (case v of None \<Rightarrow> False | Some s \<Rightarrow> s \<noteq> [])"

text \<open>
  Loading the rules: for each raw rule in turn the section is looked up by id, then by
  name; a rule without a section ends the process, a rule of unknown type throws.
\<close>

fun loadRules :: "SidebarSection list \<Rightarrow> RuleJSON list \<Rightarrow> Report + SidebarRule list" where
  "loadRules sidebarSections [] = Inr []"
| "loadRules sidebarSections (json # rest) =
     (case (case find (\<lambda>s. sidebar_section json = section_id s) sidebarSections of
              Some s \<Rightarrow> Some s
            | None \<Rightarrow> find (\<lambda>s. sidebar_section json = section_name s) sidebarSections) of
        None \<Rightarrow> Inl (SectionNotFound (sidebar_section json))
      | Some sidebarSection \<Rightarrow>
         (case fromJSON (section_id sidebarSection) json of
            Inl e \<Rightarrow> Inl (Crashed e)
          | Inr rule \<Rightarrow>
             (case loadRules sidebarSections rest of
                Inl r \<Rightarrow> Inl r
              | Inr rules \<Rightarrow> Inr (rule # rules))))"

text \<open>Everything \<open>main\<close> does before it plans: either the run ends, or there is a snapshot.\<close>

definition loadSnapshot ::
  "World \<Rightarrow> string list \<Rightarrow>
   Report + (SidebarRule list \<times> SidebarSection list \<times> (string \<times> ChannelJSON) list)" where
  "loadSnapshot w args =
     (case (case find (\<lambda>a. \<not> startsWith a ''--'') args of
              None \<Rightarrow> Inr []
            | Some rulesFile \<Rightarrow>
                if rulesFile = [] then Inr []
                else (case readRules w rulesFile of
                        None \<Rightarrow> Inl (RulesFileUnreadable rulesFile)
                      | Some raw \<Rightarrow> Inr raw)) of
        Inl r \<Rightarrow> Inl r
      | Inr sidebarRulesRaw \<Rightarrow>
          if \<not> truthy (SLACK_WORKSPACE w) \<or> \<not> truthy (SLACK_XOXC_TOKEN w)
             \<or> \<not> truthy (SLACK_XOXD_TOKEN w)
          then Inl MissingEnvironment
          else
           (case ping w of
              Inl e \<Rightarrow> Inl (Crashed e)
            | Inr connected \<Rightarrow>
               if \<not> connected then Inl CannotConnect
               else
                (case getSidebarList w of
                   Inl e \<Rightarrow> Inl (Crashed e)
                 | Inr channel_sections \<Rightarrow>
                    (let sidebarSections =
                           map SidebarSection_fromJSON
                             (filter (\<lambda>s. json_type s = ''standard'') channel_sections)
                     in case loadRules sidebarSections sidebarRulesRaw of
                          Inl r \<Rightarrow> Inl r
                        | Inr sidebarRules \<Rightarrow>
                           (case getChannels w of
                              Inl e \<Rightarrow> Inl (Crashed e)
                            | Inr allChannels \<Rightarrow>
                               if sidebarRules = [] then Inl RuleSuggestions
                               else Inr (sidebarRules, sidebarSections,
                                         channelsMap allChannels))))))"

text \<open>
  \<open>main\<close>: the report of the run, and the requests that were sent to
  \<open>SlackClient.sidebarMove\<close>.
\<close>

definition main :: "World \<Rightarrow> string list \<Rightarrow> Report \<times> SidebarMove list" where
  "main w args =
     (let writeChanges = (''--write'' \<in> set args)
      in case loadSnapshot w args of
           Inl r \<Rightarrow> (r, [])
         | Inr (sidebarRules, sidebarSections, channels) \<Rightarrow>
            (case calculateMoves sidebarRules sidebarSections channels of
               (totalMatches, sidebarMoves) \<Rightarrow>
                 if sidebarMoves = [] then (AlreadyOrganised totalMatches, [])
                 else if \<not> writeChanges then (DryRun sidebarMoves, [])
                 else
                  (case executeMoves (sidebarMove w) sidebarMoves
                          \<lparr>calls = [], successfulMoves = [], errors = []\<rparr> of
                     (Some e, st) \<Rightarrow> (Crashed e, calls st)
                   | (None, st) \<Rightarrow> (Organised (successfulMoves st) (errors st), calls st))))"

section \<open>Capacity and overflow sections\<close>

text \<open>
  Modelled from the spec: the constant \<open>SECTION_CHANNEL_LIMIT\<close> of the later
  \<open>organize.ts\<close>, of which the tests are at hand and the module is not. "A fixed
  constant (500)".
\<close>

definition SECTION_CHANNEL_LIMIT :: nat where
  "SECTION_CHANNEL_LIMIT = 500"

text \<open>
  Modelled from the spec: the method \<open>SidebarSection.availableCapacity\<close>, missing
  for the same reason. "availableCapacity = max(0, CAPACITY_LIMIT - memberIds.length)".
\<close>

definition availableCapacity :: "SidebarSection \<Rightarrow> nat" where
  "availableCapacity s =
     (if SECTION_CHANNEL_LIMIT \<le> length (channelIds s) then 0
      else SECTION_CHANNEL_LIMIT - length (channelIds s))"

text \<open>
  Modelled from the spec: the test for "decimal digits" in the names that
  \<open>findOverflowSections\<close> matches; the function is missing for the same reason.
\<close>

definition isDigit :: "char \<Rightarrow> bool" where
  "isDigit c = (c \<in> set ''0123456789'')"

text \<open>
  Modelled from the spec: "the parsed numeric suffix" of \<open>findOverflowSections\<close>, the
  number a run of decimal digits denotes.
\<close>

definition parseDigits :: "string \<Rightarrow> nat" where
  "parseDigits ds = foldl (\<lambda>n c. 10 * n + (of_char c - 48)) 0 ds"

text \<open>
  Modelled from the spec: the reading of an overflow name inside
  \<open>findOverflowSections\<close>. "Literal base name followed by a space, an open
  parenthesis, one or more decimal digits, and a close parenthesis, with nothing else";
  the result is the number the digits denote.
\<close>

definition overflowNumber :: "string \<Rightarrow> string \<Rightarrow> nat option" where
  "overflowNumber baseName name =
     (if startsWith name (baseName @ '' ('') \<and> endsWith name '')''
      then (let digits = butlast (drop (length baseName + 2) name)
            in if digits \<noteq> [] \<and> list_all isDigit digits then Some (parseDigits digits)
               else None)
      else None)"

text \<open>
  Modelled from the spec: the sort key of \<open>findOverflowSections\<close>, the parsed numeric
  suffix of a section's name.
\<close>

definition overflowKey :: "string \<Rightarrow> SidebarSection \<Rightarrow> nat" where
  "overflowKey baseName s =
     (case overflowNumber baseName (section_name s) of None \<Rightarrow> 0 | Some n \<Rightarrow> n)"

text \<open>
  Modelled from the spec: the function \<open>findOverflowSections\<close>, missing for the same
  reason. "Match buckets whose name equals \<open><baseName> (<digits>)\<close> exactly ...
  Results are ordered ascending by the parsed numeric suffix, not by string or
  discovery order." Sections with the same number keep their order, as under
  \<open>Array.prototype.sort\<close>.
\<close>

definition findOverflowSections :: "string \<Rightarrow> SidebarSection list \<Rightarrow> SidebarSection list" where
  "findOverflowSections baseName sections =
     sort_key (overflowKey baseName)
       (filter (\<lambda>s. overflowNumber baseName (section_name s) \<noteq> None) sections)"

section \<open>Distributing moves over a section and its overflow sections\<close>

text \<open>
  Modelled from the spec: the scan of \<open>distributeMovesAcrossSections\<close> for "the first
  bucket with remaining capacity > 0", over the running counters of the candidate
  sections; the function is missing for the same reason. The result is the position of
  that section in the candidate list.
\<close>

fun firstWithCapacity :: "nat list \<Rightarrow> nat option" where
  "firstWithCapacity [] = None"
| "firstWithCapacity (c # cs) =
     (if 0 < c then Some 0 else map_option Suc (firstWithCapacity cs))"

text \<open>
  Modelled from the spec: the loop of \<open>distributeMovesAcrossSections\<close>. "Process
  moves in input order; for each move, scan candidate buckets in order and assign the
  move to the first bucket with remaining capacity > 0, decrementing that bucket's
  counter. If no candidate bucket has remaining capacity, the move's destination is left
  unchanged." Each move is returned with the position of the section it was assigned
  to, or \<open>None\<close> when it was assigned to none.
\<close>

fun distribute ::
  "SidebarSection list \<Rightarrow> nat list \<Rightarrow> SidebarMove list \<Rightarrow> (SidebarMove \<times> nat option) list" where
  "distribute candidateSections remaining [] = []"
| "distribute candidateSections remaining (move # moves) =
     (case firstWithCapacity remaining of
        None \<Rightarrow> (move, None) # distribute candidateSections remaining moves
      | Some k \<Rightarrow>
          (move\<lparr>toSidebarSectionId := section_id (candidateSections ! k)\<rparr>, Some k)
            # distribute candidateSections (remaining[k := remaining ! k - 1]) moves)"

text \<open>
  Modelled from the spec: \<open>distributeMovesAcrossSections\<close> itself. "Maintain a running
  available-capacity counter per candidate bucket, initialized from each bucket's
  \<open>availableCapacity()\<close>." The function rewrites the moves in place; here it returns
  them.
\<close>

definition distributeMovesAcrossSections ::
  "SidebarMove list \<Rightarrow> SidebarSection list \<Rightarrow> SidebarMove list" where
  "distributeMovesAcrossSections moves candidateSections =
     map fst (distribute candidateSections (map availableCapacity candidateSections) moves)"

text \<open>
  Modelled from the spec: the assignment \<open>distributeMovesAcrossSections\<close> makes, for
  each move the position of the candidate section it was assigned to, or \<open>None\<close>.
\<close>

definition assignment :: "SidebarMove list \<Rightarrow> SidebarSection list \<Rightarrow> nat option list" where
  "assignment moves candidateSections =
     map snd (distribute candidateSections (map availableCapacity candidateSections) moves)"

text \<open>The number of moves that were assigned to the candidate at position \<open>k\<close>.\<close>

definition assignedCount :: "nat option list \<Rightarrow> nat \<Rightarrow> nat" where
  "assignedCount as k = count_list as (Some k)"

section \<open>Rule construction and rule resolution\<close>

lemma startsWith_iff: "startsWith s p \<longleftrightarrow> (\<exists>r. s = p @ r)"
proof
  assume "startsWith s p"
  then have "s = p @ drop (length p) s"
    unfolding startsWith_def by (metis append_take_drop_id)
  then show "\<exists>r. s = p @ r" ..
next
  assume "\<exists>r. s = p @ r"
  then show "startsWith s p" by (auto simp: startsWith_def)
qed

lemma endsWith_iff: "endsWith s p \<longleftrightarrow> (\<exists>r. s = r @ p)"
proof
  assume "endsWith s p"
  then have "s = take (length s - length p) s @ p"
    unfolding endsWith_def by (metis append_take_drop_id)
  then show "\<exists>r. s = r @ p" ..
next
  assume "\<exists>r. s = r @ p"
  then show "endsWith s p" by (auto simp: endsWith_def)
qed

lemma includes_js_iff: "includes_js s k \<longleftrightarrow> (\<exists>l r. s = l @ k @ r)"
proof (induction s)
  case Nil
  show ?case by auto
next
  case (Cons c cs)
  show ?case
  proof
    assume "includes_js (c # cs) k"
    then consider "startsWith (c # cs) k" | "includes_js cs k" by auto
    then show "\<exists>l r. c # cs = l @ k @ r"
    proof cases
      case 1
      then obtain r where "c # cs = k @ r" by (auto simp: startsWith_iff)
      then have "c # cs = [] @ k @ r" by simp
      then show ?thesis by blast
    next
      case 2
      with Cons obtain l r where "cs = l @ k @ r" by auto
      then have "c # cs = (c # l) @ k @ r" by simp
      then show ?thesis by blast
    qed
  next
    assume "\<exists>l r. c # cs = l @ k @ r"
    then obtain l r where e: "c # cs = l @ k @ r" by auto
    show "includes_js (c # cs) k"
    proof (cases l)
      case Nil
      with e have "startsWith (c # cs) k" by (auto simp: startsWith_iff)
      then show ?thesis by simp
    next
      case (Cons a l')
      with e have "cs = l' @ k @ r" by simp
      with Cons.IH show ?thesis by auto
    qed
  qed
qed

lemma getSidebarSection_id:
  "getSidebarSection sidebarSections i = Some s \<Longrightarrow> section_id s = i \<and> s \<in> set sidebarSections"
  unfolding getSidebarSection_def by (auto simp: find_Some_iff)

lemma planChannel_destination:
  assumes "findRule sidebarRules (channel_name channel) = Some rule"
    and "m \<in> set (snd (planChannel sidebarRules sidebarSections (cid, channel) (n, [])))"
  shows "toSidebarSectionId m = sidebarSectionId rule"
  using assms unfolding planChannel_def
  by (auto simp: Let_def split: option.splits if_splits dest: getSidebarSection_id)

text \<open>
  C3. Rule resolution is a scan in list order: it finds no rule exactly when no rule
  of the list applies to the name, and it finds \<open>r\<close> exactly when \<open>r\<close> stands at a
  position before which no rule applies and \<open>r\<close> applies. So a rule that applies and
  stands first is the one found, whatever follows it; and for a list of two rules that
  both apply, every move planned for the channel goes to the section of the first.
\<close>

theorem findRule_first_match:
  "(findRule rules name = None \<longleftrightarrow> (\<forall>r \<in> set rules. \<not> applies r name)) \<and>
   (findRule rules name = Some r \<longleftrightarrow>
      (\<exists>i < length rules. rules ! i = r \<and> applies r name
          \<and> (\<forall>j < i. \<not> applies (rules ! j) name))) \<and>
   (applies R1 name \<longrightarrow> findRule (R1 # rest) name = Some R1) \<and>
   (applies R1 (channel_name channel) \<and> applies R2 (channel_name channel) \<longrightarrow>
      (\<forall>m \<in> set (snd (planChannel [R1, R2] sidebarSections (cid, channel) (n, []))).
          toSidebarSectionId m = sidebarSectionId R1))"
proof (intro conjI impI)
  show "findRule rules name = None \<longleftrightarrow> (\<forall>r \<in> set rules. \<not> applies r name)"
    unfolding findRule_def by (auto simp: find_None_iff)
  show "findRule rules name = Some r \<longleftrightarrow>
      (\<exists>i < length rules. rules ! i = r \<and> applies r name
          \<and> (\<forall>j < i. \<not> applies (rules ! j) name))"
    unfolding findRule_def by (auto simp: find_Some_iff)
  show "findRule (R1 # rest) name = Some R1" if "applies R1 name"
    using that unfolding findRule_def by simp
  show "\<forall>m \<in> set (snd (planChannel [R1, R2] sidebarSections (cid, channel) (n, []))).
          toSidebarSectionId m = sidebarSectionId R1"
    if "applies R1 (channel_name channel) \<and> applies R2 (channel_name channel)"
  proof -
    from that have "findRule [R1, R2] (channel_name channel) = Some R1"
      unfolding findRule_def by simp
    then show ?thesis by (blast dest: planChannel_destination)
  qed
qed

text \<open>
  The witness: the prefix rule \<open>cust-\<close> before the keyword rule \<open>vip\<close>, and the
  channel \<open>cust-vip-acme\<close>, to which both apply.
\<close>

theorem findRule_first_match_witness:
  "applies (PrefixSidebarRule ''s1'' (Some ''cust-'')) ''cust-vip-acme'' \<and>
   applies (KeywordSidebarRule ''s2'' (Some ''vip'')) ''cust-vip-acme'' \<and>
   findRule [PrefixSidebarRule ''s1'' (Some ''cust-''), KeywordSidebarRule ''s2'' (Some ''vip'')]
     ''cust-vip-acme'' = Some (PrefixSidebarRule ''s1'' (Some ''cust-''))"
proof -
  have a: "applies (PrefixSidebarRule ''s1'' (Some ''cust-'')) ''cust-vip-acme''"
    by (simp add: startsWith_def ToString_def)
  have b: "applies (KeywordSidebarRule ''s2'' (Some ''vip'')) ''cust-vip-acme''"
    by (simp add: startsWith_def ToString_def)
  from a have "findRule [PrefixSidebarRule ''s1'' (Some ''cust-''), KeywordSidebarRule ''s2'' (Some ''vip'')]
     ''cust-vip-acme'' = Some (PrefixSidebarRule ''s1'' (Some ''cust-''))"
    using findRule_first_match
      [of "[PrefixSidebarRule ''s1'' (Some ''cust-''), KeywordSidebarRule ''s2'' (Some ''vip'')]"
          "''cust-vip-acme''" "PrefixSidebarRule ''s1'' (Some ''cust-'')"
          "PrefixSidebarRule ''s1'' (Some ''cust-'')" "[KeywordSidebarRule ''s2'' (Some ''vip'')]"]
    by blast
  with a b show ?thesis by blast
qed

text \<open>
  C4, as the code has it. \<open>SidebarRule.fromJSON\<close> selects among three variants by
  the discriminator: \<open>prefix\<close>, \<open>suffix\<close> and \<open>keyword\<close>, each built from its own field
  and the section id. Every other value of the discriminator, \<open>exact\<close> among them, ends
  in the error \<open>Unknown rule type:\<close> followed by that value.
\<close>

theorem fromJSON_variants:
  "(rule_type json = ''prefix'' \<longrightarrow>
      fromJSON sid json = Inr (PrefixSidebarRule sid (rule_prefix json))) \<and>
   (rule_type json = ''suffix'' \<longrightarrow>
      fromJSON sid json = Inr (SuffixSidebarRule sid (rule_suffix json))) \<and>
   (rule_type json = ''keyword'' \<longrightarrow>
      fromJSON sid json = Inr (KeywordSidebarRule sid (rule_keyword json))) \<and>
   (rule_type json \<notin> {''prefix'', ''suffix'', ''keyword''} \<longrightarrow>
      fromJSON sid json = Inl (Error (''Unknown rule type: '' @ rule_type json)))"
  unfolding fromJSON_def by simp

text \<open>
  The witness: the four cases of the discriminator at concrete rules, the last one the
  type \<open>regex\<close>.
\<close>

theorem fromJSON_variants_witness:
  "fromJSON ''s1'' \<lparr>rule_type = ''prefix'', sidebar_section = ''s1'', rule_prefix = Some ''cust-'',
       rule_suffix = None, rule_keyword = None\<rparr> = Inr (PrefixSidebarRule ''s1'' (Some ''cust-'')) \<and>
   fromJSON ''s1'' \<lparr>rule_type = ''suffix'', sidebar_section = ''s1'', rule_prefix = None,
       rule_suffix = Some ''-proj'', rule_keyword = None\<rparr> = Inr (SuffixSidebarRule ''s1'' (Some ''-proj'')) \<and>
   fromJSON ''s1'' \<lparr>rule_type = ''keyword'', sidebar_section = ''s1'', rule_prefix = None,
       rule_suffix = None, rule_keyword = Some ''test''\<rparr> = Inr (KeywordSidebarRule ''s1'' (Some ''test'')) \<and>
   ''regex'' \<notin> {''prefix'', ''suffix'', ''keyword''} \<and>
   fromJSON ''s1'' \<lparr>rule_type = ''regex'', sidebar_section = ''s1'', rule_prefix = None,
       rule_suffix = None, rule_keyword = None\<rparr> = Inl (Error ''Unknown rule type: regex'')"
  using
    fromJSON_variants [of "\<lparr>rule_type = ''prefix'', sidebar_section = ''s1'',
       rule_prefix = Some ''cust-'', rule_suffix = None, rule_keyword = None\<rparr>" "''s1''"]
    fromJSON_variants [of "\<lparr>rule_type = ''suffix'', sidebar_section = ''s1'',
       rule_prefix = None, rule_suffix = Some ''-proj'', rule_keyword = None\<rparr>" "''s1''"]
    fromJSON_variants [of "\<lparr>rule_type = ''keyword'', sidebar_section = ''s1'',
       rule_prefix = None, rule_suffix = None, rule_keyword = Some ''test''\<rparr>" "''s1''"]
    fromJSON_variants [of "\<lparr>rule_type = ''regex'', sidebar_section = ''s1'',
       rule_prefix = None, rule_suffix = None, rule_keyword = None\<rparr>" "''s1''"]
  by simp

text \<open>
  C4, as the claim has it, fails: a rule of type \<open>exact\<close> is not constructed, it is
  refused as an unknown type.
\<close>

theorem fromJSON_exact_counterexample:
  "fromJSON ''s1'' \<lparr>rule_type = ''exact'', sidebar_section = ''s1'', rule_prefix = None,
       rule_suffix = None, rule_keyword = None\<rparr> = Inl (Error ''Unknown rule type: exact'')"
  by (simp add: fromJSON_def)

section \<open>Counting prefixes\<close>

lemma map_of_Map_set: "map_of (Map_set k v m) = (map_of m)(k \<mapsto> v)"
  by (induction m) (auto simp: fun_eq_iff)

lemma keys_Map_set: "set (map fst (Map_set k v m)) = insert k (set (map fst m))"
  by (induction m) auto

lemma distinct_Map_set: "distinct (map fst m) \<Longrightarrow> distinct (map fst (Map_set k v m))"
  by (induction m) (auto simp: keys_Map_set[simplified])

lemma Map_set_fresh: "k \<notin> fst ` set m \<Longrightarrow> Map_set k v m = m @ [(k, v)]"
  by (induction m) auto

text \<open>
  The count a table holds for a key, read as \<open>get(key) || 0\<close> reads it, and the
  invariant that no entry of the table is zero.
\<close>

definition tally :: "(string \<times> nat) list \<Rightarrow> string \<Rightarrow> nat" where
  "tally m k = (case map_of m k of None \<Rightarrow> 0 | Some n \<Rightarrow> n)"

definition positive :: "(string \<times> nat) list \<Rightarrow> bool" where
  "positive m = (\<forall>k n. map_of m k = Some n \<longrightarrow> 0 < n)"

lemma tally_countPrefix: "tally (countPrefix p m) k = tally m k + (if k = p then 1 else 0)"
  by (simp add: tally_def countPrefix_def map_of_Map_set)

lemma positive_countPrefix: "positive m \<Longrightarrow> positive (countPrefix p m)"
  by (auto simp: positive_def countPrefix_def map_of_Map_set)

lemma fold_countPrefix_tally:
  "tally (fold (\<lambda>i. countPrefix (f i)) is m) k = tally m k + count_list (map f is) k"
  by (induction "is" arbitrary: m) (auto simp: tally_countPrefix)

lemma fold_countPrefix_positive:
  "positive m \<Longrightarrow> positive (fold (\<lambda>i. countPrefix (f i)) is m)"
  by (induction "is" arbitrary: m) (auto simp: positive_countPrefix)

lemma fold_countPrefix_distinct:
  "distinct (map fst m) \<Longrightarrow> distinct (map fst (fold (\<lambda>i. countPrefix (f i)) is m))"
  by (induction "is" arbitrary: m) (auto simp: countPrefix_def distinct_Map_set)

lemma candidates_by_index:
  "candidates name =
     (let segs = take 4 (butlast (split CHR ''-'' name))
      in map (\<lambda>i. join CHR ''-'' (take (i + 1) segs)) [0 ..< length segs])"
  unfolding candidates_def Let_def
  by (simp add: map_Suc_upt[symmetric] del: upt_Suc)

lemma tally_countName: "tally (countName name m) k = tally m k + count_list (candidates name) k"
  unfolding countName_def candidates_by_index Let_def by (rule fold_countPrefix_tally)

lemma positive_countName: "positive m \<Longrightarrow> positive (countName name m)"
  unfolding countName_def Let_def by (rule fold_countPrefix_positive)

lemma distinct_countName: "distinct (map fst m) \<Longrightarrow> distinct (map fst (countName name m))"
  unfolding countName_def Let_def by (rule fold_countPrefix_distinct)

lemma count_list_app: "count_list (xs @ ys) k = count_list xs k + count_list ys k"
  by (induction xs) auto

lemma fold_countName_tally:
  "tally (fold countName names m) k = tally m k + occurrences names k"
  by (induction names arbitrary: m)
     (auto simp: tally_countName occurrences_def count_list_app)

lemma fold_countName_positive: "positive m \<Longrightarrow> positive (fold countName names m)"
  by (induction names arbitrary: m) (auto simp: positive_countName)

lemma fold_countName_distinct:
  "distinct (map fst m) \<Longrightarrow> distinct (map fst (fold countName names m))"
  by (induction names arbitrary: m) (auto simp: distinct_countName)

lemma getPrefixes_distinct: "distinct (map fst (getPrefixes names))"
  unfolding getPrefixes_def by (rule fold_countName_distinct) simp

lemma getPrefixes_lookup:
  "map_of (getPrefixes names) key =
     (if occurrences names key = 0 then None else Some (occurrences names key))"
proof -
  have t: "tally (getPrefixes names) key = occurrences names key"
    unfolding getPrefixes_def using fold_countName_tally[of names "[]" key]
    by (simp add: tally_def)
  have p: "positive (getPrefixes names)"
    unfolding getPrefixes_def by (rule fold_countName_positive) (simp add: positive_def)
  show ?thesis
  proof (cases "map_of (getPrefixes names) key")
    case None
    with t show ?thesis by (simp add: tally_def)
  next
    case (Some n)
    with p have "0 < n" by (auto simp: positive_def)
    with t Some show ?thesis by (simp add: tally_def)
  qed
qed

lemma split_no_sep: "c \<notin> set s \<Longrightarrow> split c s = [s]"
  by (induction s) auto

lemma countName_no_separator: "CHR ''-'' \<notin> set name \<Longrightarrow> countName name m = m"
  by (simp add: countName_def split_no_sep)

lemma getPrefixes_example:
  "getPrefixes [''project-alpha'', ''project-beta'', ''customer-a'', ''customer-b'',
                ''customer-c'', ''some-other-channel'']
     = [(''project'', 2), (''customer'', 3), (''some'', 1), (''some-other'', 1)]"
  by code_simp

lemma getPrefixes_double_hyphen:
  "getPrefixes [''test--channel''] = [(''test'', 1), (''test-'', 1)]"
  by code_simp

text \<open>
  C7. The table \<open>getPrefixes\<close> builds holds, for every key, the number of times the key
  occurs among the candidates of the names (the leading runs of the segments without the
  last, cut to four, joined with the separator), and holds no key that never occurs;
  each key stands once in the table. A name without a separator leaves the table as it
  is; two separators in a row give the key \<open>test-\<close>; and the six names of the example
  give exactly customer 3, project 2, some 1, some-other 1.
\<close>

theorem getPrefixes_counts:
  "map_of (getPrefixes names) key =
     (if occurrences names key = 0 then None else Some (occurrences names key)) \<and>
   distinct (map fst (getPrefixes names)) \<and>
   (CHR ''-'' \<notin> set name \<longrightarrow> countName name counts = counts) \<and>
   getPrefixes [''test--channel''] = [(''test'', 1), (''test-'', 1)] \<and>
   getPrefixes [''project-alpha'', ''project-beta'', ''customer-a'', ''customer-b'',
                ''customer-c'', ''some-other-channel'']
     = [(''project'', 2), (''customer'', 3), (''some'', 1), (''some-other'', 1)] \<and>
   map_of (getPrefixes [''project-alpha'', ''project-beta'', ''customer-a'', ''customer-b'',
                ''customer-c'', ''some-other-channel''])
     = [''customer'' \<mapsto> 3, ''project'' \<mapsto> 2, ''some'' \<mapsto> 1, ''some-other'' \<mapsto> 1]"
proof (intro conjI impI)
  show "map_of (getPrefixes names) key =
     (if occurrences names key = 0 then None else Some (occurrences names key))"
    by (rule getPrefixes_lookup)
  show "distinct (map fst (getPrefixes names))"
    by (rule getPrefixes_distinct)
  show "countName name counts = counts" if "CHR ''-'' \<notin> set name"
    using that by (rule countName_no_separator)
  show "getPrefixes [''test--channel''] = [(''test'', 1), (''test-'', 1)]"
    by (rule getPrefixes_double_hyphen)
  show "getPrefixes [''project-alpha'', ''project-beta'', ''customer-a'', ''customer-b'',
                ''customer-c'', ''some-other-channel'']
     = [(''project'', 2), (''customer'', 3), (''some'', 1), (''some-other'', 1)]"
    by (rule getPrefixes_example)
  show "map_of (getPrefixes [''project-alpha'', ''project-beta'', ''customer-a'', ''customer-b'',
                ''customer-c'', ''some-other-channel''])
     = [''customer'' \<mapsto> 3, ''project'' \<mapsto> 2, ''some'' \<mapsto> 1, ''some-other'' \<mapsto> 1]"
    unfolding getPrefixes_example by (rule ext) simp
qed

text \<open>
  The witness: the name \<open>something\<close> has no separator, and counting it after
  \<open>customer-a\<close> leaves the one entry of the table.
\<close>

theorem getPrefixes_counts_witness:
  "CHR ''-'' \<notin> set ''something'' \<and>
   countName ''something'' [(''customer'', 1)] = [(''customer'', 1)]"
proof -
  have h: "CHR ''-'' \<notin> set ''something''" by simp
  have "CHR ''-'' \<notin> set ''something'' \<longrightarrow>
          countName ''something'' [(''customer'', 1)] = [(''customer'', 1)]"
    using getPrefixes_counts [of "[]" "[]" "''something''" "[(''customer'', 1)]"] by blast
  with h show ?thesis by blast
qed

section \<open>Counting suffixes\<close>

lemma split_not_Nil: "split c s \<noteq> []"
  by (induction s) (auto split: list.splits)

lemma join_split: "join c (split c s) = s"
proof (induction s)
  case Nil
  show ?case by simp
next
  case (Cons a s)
  obtain seg segs where sp: "split c s = seg # segs"
    using split_not_Nil[of c s] by (cases "split c s") auto
  show ?case
  proof (cases "a = c")
    case True
    with Cons sp show ?thesis by simp
  next
    case False
    with Cons sp show ?thesis by (cases segs) auto
  qed
qed

lemma split_sep_free: "x \<in> set (split c s) \<Longrightarrow> c \<notin> set x"
proof (induction s arbitrary: x)
  case Nil
  then show ?case by simp
next
  case (Cons a s)
  then show ?case by (auto split: if_splits list.splits)
qed

lemma split_append_sep: "c \<notin> set s \<Longrightarrow> split c (s @ c # r) = s # split c r"
  by (induction s) auto

lemma split_join:
  "xs \<noteq> [] \<Longrightarrow> \<forall>x\<in>set xs. c \<notin> set x \<Longrightarrow> split c (join c xs) = xs"
proof (induction c xs rule: join.induct)
  case (1 sep)
  then show ?case by simp
next
  case (2 sep s)
  then show ?case by (simp add: split_no_sep)
next
  case (3 sep s t ss)
  then show ?case by (simp add: split_append_sep)
qed

lemma mirror_mirror: "mirror (mirror s) = s"
proof -
  have "split CHR ''-'' (join CHR ''-'' (rev (split CHR ''-'' s))) = rev (split CHR ''-'' s)"
    by (rule split_join) (auto simp: split_not_Nil dest: split_sep_free)
  then show ?thesis by (simp add: mirror_def join_split)
qed

lemma mirror_inj: "mirror a = mirror b \<Longrightarrow> a = b"
  by (metis mirror_mirror)

lemma fold_Map_set_mirror:
  "distinct (map fst xs) \<Longrightarrow> mirror ` fst ` set xs \<inter> fst ` set acc = {} \<Longrightarrow>
   fold (\<lambda>(key, value) suffixes. Map_set (mirror key) value suffixes) xs acc
     = acc @ reverse_keyed xs"
proof (induction xs arbitrary: acc)
  case Nil
  then show ?case by (simp add: reverse_keyed_def)
next
  case (Cons e xs)
  obtain k v where e: "e = (k, v)" by (cases e)
  from Cons.prems e have fresh: "mirror k \<notin> fst ` set acc" by auto
  have d: "distinct (map fst xs)" using Cons.prems by simp
  have "mirror ` fst ` set xs \<inter> fst ` set (acc @ [(mirror k, v)]) = {}"
  proof -
    have "mirror k \<notin> mirror ` fst ` set xs"
    proof
      assume "mirror k \<in> mirror ` fst ` set xs"
      then obtain k' where "k' \<in> fst ` set xs" "mirror k = mirror k'" by auto
      then have "k \<in> fst ` set xs" using mirror_inj by auto
      with Cons.prems e show False by simp
    qed
    with Cons.prems show ?thesis by auto
  qed
  from Cons.IH[OF d this] fresh e show ?case
    by (simp add: Map_set_fresh reverse_keyed_def)
qed

lemma map_of_reverse_keyed: "map_of (reverse_keyed xs) (mirror key) = map_of xs key"
  by (induction xs) (auto simp: reverse_keyed_def dest: mirror_inj)

lemma getSuffixes_reverse_keyed:
  "getSuffixes names = reverse_keyed (getPrefixes (map mirror names))"
  unfolding getSuffixes_def Let_def
  using fold_Map_set_mirror[OF getPrefixes_distinct, of "map mirror names" "[]"] by simp

text \<open>
  C8. \<open>getSuffixes\<close> of a list of names is the table \<open>getPrefixes\<close> builds for the
  mirrored names, with every key mirrored back and its count kept: the two tables are
  equal entry by entry, in the same order, and so the count under a mirrored key is the
  count of the key in the table of prefixes.
\<close>

theorem getSuffixes_mirror:
  "getSuffixes names = reverse_keyed (getPrefixes (map mirror names)) \<and>
   map_of (getSuffixes names) (mirror key) = map_of (getPrefixes (map mirror names)) key \<and>
   mirror (mirror key) = key"
  by (simp add: getSuffixes_reverse_keyed map_of_reverse_keyed mirror_mirror)

section \<open>The planning pass\<close>

lemma getSidebarSection_self:
  "getSidebarSection secs i = Some t \<Longrightarrow> getSidebarSection secs (section_id t) = Some t"
  unfolding getSidebarSection_def by (auto simp: find_Some_iff)

text \<open>
  What the loop body establishes for a move it appends: the section found under the
  move's destination id does not hold the channel, and the origin is read off the first
  section that holds it.
\<close>

definition planned :: "SidebarSection list \<Rightarrow> SidebarMove \<Rightarrow> bool" where
  "planned secs m \<longleftrightarrow>
     (\<exists>t. getSidebarSection secs (toSidebarSectionId m) = Some t
          \<and> \<not> includesChannel t (channelId m)) \<and>
     fromSidebarSectionId m =
       orNull (map_option section_id (find (\<lambda>s. includesChannel s (channelId m)) secs))"

lemma planChannel_planned:
  assumes "\<forall>m \<in> set (snd st). planned secs m"
  shows "\<forall>m \<in> set (snd (planChannel rules secs entry st)). planned secs m"
proof -
  obtain cid channel where e: "entry = (cid, channel)" by (cases entry)
  obtain n ms where s: "st = (n, ms)" by (cases st)
  show ?thesis
    using assms unfolding e s planChannel_def
    by (auto simp: Let_def planned_def split: option.splits dest: getSidebarSection_self)
qed

lemma fold_planChannel_planned:
  "\<forall>m \<in> set (snd st). planned secs m \<Longrightarrow>
   \<forall>m \<in> set (snd (fold (planChannel rules secs) channels st)). planned secs m"
proof (induction channels arbitrary: st)
  case Nil
  then show ?case by simp
next
  case (Cons c channels)
  from Cons.prems have "\<forall>m \<in> set (snd (planChannel rules secs c st)). planned secs m"
    by (rule planChannel_planned)
  then show ?case using Cons.IH by simp
qed

lemma calculateMoves_planned:
  "m \<in> set (snd (calculateMoves rules secs channels)) \<Longrightarrow> planned secs m"
  unfolding calculateMoves_def using fold_planChannel_planned[of "(0, [])" secs rules channels]
  by simp

lemma find_Some_member: "find P xs = Some f \<Longrightarrow> f \<in> set xs \<and> P f"
  by (auto simp: find_Some_iff)

lemma distinct_ids_eq:
  "distinct (map section_id secs) \<Longrightarrow> a \<in> set secs \<Longrightarrow> b \<in> set secs \<Longrightarrow>
   section_id a = section_id b \<Longrightarrow> a = b"
  by (meson distinct_map inj_onD)

text \<open>
  C10, as the code has it. For every move the planning pass emits: the section that
  \<open>getSidebarSection\<close> finds under the move's destination id does not contain the
  channel; \<open>fromSidebarSectionId\<close> is the id of the first section of the snapshot that
  contains the channel, and it is null when no section contains it or when that id is
  the empty string; so, when no section id of the snapshot is empty, it is null exactly
  when no section contains the channel; and when the section ids of the snapshot are
  distinct, \<open>fromSidebarSectionId\<close> is not the destination.
\<close>

theorem planned_moves_sound:
  assumes "m \<in> set (snd (calculateMoves rules secs channels))"
  shows "(\<exists>t. getSidebarSection secs (toSidebarSectionId m) = Some t
              \<and> \<not> includesChannel t (channelId m)) \<and>
         fromSidebarSectionId m =
           (case find (\<lambda>s. includesChannel s (channelId m)) secs of
              None \<Rightarrow> None
            | Some f \<Rightarrow> if section_id f = [] then None else Some (section_id f)) \<and>
         ((\<forall>s \<in> set secs. section_id s \<noteq> []) \<longrightarrow>
            (fromSidebarSectionId m = None \<longleftrightarrow>
               (\<forall>s \<in> set secs. \<not> includesChannel s (channelId m)))) \<and>
         (distinct (map section_id secs) \<longrightarrow>
            fromSidebarSectionId m \<noteq> Some (toSidebarSectionId m))"
proof -
  from assms have p: "planned secs m" by (rule calculateMoves_planned)
  then obtain t where t: "getSidebarSection secs (toSidebarSectionId m) = Some t"
      "\<not> includesChannel t (channelId m)"
    unfolding planned_def by blast
  from p have fr: "fromSidebarSectionId m =
       orNull (map_option section_id (find (\<lambda>s. includesChannel s (channelId m)) secs))"
    unfolding planned_def by blast
  have c2: "fromSidebarSectionId m =
           (case find (\<lambda>s. includesChannel s (channelId m)) secs of
              None \<Rightarrow> None
            | Some f \<Rightarrow> if section_id f = [] then None else Some (section_id f))"
    unfolding fr orNull_def by (simp split: option.splits)
  have c3: "fromSidebarSectionId m = None \<longleftrightarrow>
               (\<forall>s \<in> set secs. \<not> includesChannel s (channelId m))"
    if ne: "\<forall>s \<in> set secs. section_id s \<noteq> []"
  proof (cases "find (\<lambda>s. includesChannel s (channelId m)) secs")
    case None
    then have "fromSidebarSectionId m = None" using c2 by simp
    moreover from None have "\<forall>s \<in> set secs. \<not> includesChannel s (channelId m)"
      by (auto simp: find_None_iff)
    ultimately show ?thesis by blast
  next
    case (Some f)
    then have "f \<in> set secs" "includesChannel f (channelId m)"
      by (auto dest: find_Some_member)
    with ne Some show ?thesis unfolding c2 by auto
  qed
  have c4: "fromSidebarSectionId m \<noteq> Some (toSidebarSectionId m)"
    if d: "distinct (map section_id secs)"
  proof
    assume eq: "fromSidebarSectionId m = Some (toSidebarSectionId m)"
    then obtain f where f: "find (\<lambda>s. includesChannel s (channelId m)) secs = Some f"
      and idf: "section_id f = toSidebarSectionId m"
      unfolding c2 by (auto split: option.splits if_splits)
    from f have fin: "f \<in> set secs" "includesChannel f (channelId m)"
      by (auto dest: find_Some_member)
    from t(1) have tin: "t \<in> set secs" "section_id t = toSidebarSectionId m"
      by (auto dest: getSidebarSection_id)
    from d fin(1) tin idf have "f = t" by (auto intro: distinct_ids_eq)
    with fin(2) t(2) show False by simp
  qed
  from t c2 c3 c4 show ?thesis by blast
qed

text \<open>
  A small workspace for the examples: the channel \<open>cust-acme\<close> sits in the section
  \<open>Channels\<close>, and the one rule sends the prefix \<open>cust-\<close> to the section
  \<open>Customers\<close>.
\<close>

definition acme :: ChannelJSON where
  "acme = \<lparr>channel_id = ''C1'', channel_name = ''cust-acme'', is_channel = True,
           is_member = True\<rparr>"

definition custRule :: SidebarRule where
  "custRule = PrefixSidebarRule ''s2'' (Some ''cust-'')"

definition twoSections :: "SidebarSection list" where
  "twoSections =
     [\<lparr>section_id = ''s1'', section_name = ''Channels'', channelIds = [''C1'']\<rparr>,
      \<lparr>section_id = ''s2'', section_name = ''Customers'', channelIds = []\<rparr>]"

definition acmeMove :: SidebarMove where
  "acmeMove = \<lparr>channelId = ''C1'', fromSidebarSectionId = Some ''s1'',
               toSidebarSectionId = ''s2''\<rparr>"

lemma calculateMoves_acme:
  "calculateMoves [custRule] twoSections [(''C1'', acme)] = (1, [acmeMove])"
  by (simp add: calculateMoves_def planChannel_def findRule_def startsWith_def ToString_def
      getSidebarSection_def includesChannel_def orNull_def acme_def custRule_def
      twoSections_def acmeMove_def)

text \<open>The witness: the move planned for \<open>cust-acme\<close> in that workspace.\<close>

theorem planned_moves_sound_witness:
  "acmeMove \<in> set (snd (calculateMoves [custRule] twoSections [(''C1'', acme)])) \<and>
   distinct (map section_id twoSections) \<and>
   list_all (\<lambda>s. section_id s \<noteq> []) twoSections \<and>
   fromSidebarSectionId acmeMove = Some ''s1'' \<and>
   fromSidebarSectionId acmeMove \<noteq> Some (toSidebarSectionId acmeMove)"
proof -
  have h: "acmeMove \<in> set (snd (calculateMoves [custRule] twoSections [(''C1'', acme)]))"
    by (simp add: calculateMoves_acme)
  have d: "distinct (map section_id twoSections)"
    by (simp add: twoSections_def)
  have n: "list_all (\<lambda>s. section_id s \<noteq> []) twoSections"
    by (simp add: twoSections_def)
  from planned_moves_sound[OF h] d
  have "fromSidebarSectionId acmeMove \<noteq> Some (toSidebarSectionId acmeMove)" by blast
  moreover have "fromSidebarSectionId acmeMove = Some ''s1''" by (simp add: acmeMove_def)
  ultimately show ?thesis using h d n by blast
qed

text \<open>
  C10, as the claim has it, fails where the first section that holds the channel has
  the empty string for its id: the origin of the move is null although a section of the
  snapshot contains the channel.
\<close>

definition emptyIdSections :: "SidebarSection list" where
  "emptyIdSections =
     [\<lparr>section_id = [], section_name = ''Channels'', channelIds = [''C1'']\<rparr>,
      \<lparr>section_id = ''s2'', section_name = ''Customers'', channelIds = []\<rparr>]"

theorem planned_origin_counterexample:
  "snd (calculateMoves [custRule] emptyIdSections [(''C1'', acme)]) =
     [\<lparr>channelId = ''C1'', fromSidebarSectionId = None, toSidebarSectionId = ''s2''\<rparr>] \<and>
   includesChannel (emptyIdSections ! 0) ''C1''"
  by (simp add: calculateMoves_def planChannel_def findRule_def startsWith_def ToString_def
      getSidebarSection_def includesChannel_def orNull_def acme_def custRule_def
      emptyIdSections_def)

section \<open>The write loop\<close>

lemma executeMoves_answered:
  "length rs = length moves \<Longrightarrow>
   \<forall>i < length moves. svc (length (calls st) + i) (moves ! i) = Inr (rs ! i) \<Longrightarrow>
   executeMoves svc moves st =
     (None, st\<lparr>calls := calls st @ moves,
               successfulMoves :=
                 successfulMoves st @ map fst (filter (\<lambda>p. ok (snd p)) (zip moves rs)),
               errors := errors st @ filter (\<lambda>p. \<not> ok (snd p)) (zip moves rs)\<rparr>)"
proof (induction moves arbitrary: st rs)
  case Nil
  then show ?case by simp
next
  case (Cons move rest)
  then obtain r rs' where rs: "rs = r # rs'" by (cases rs) auto
  from Cons.prems(2) have r: "svc (length (calls st)) move = Inr r"
    unfolding rs by force
  have len: "length rs' = length rest" using Cons.prems(1) rs by simp
  have step: "\<forall>i < length rest. svc (length (calls st) + 1 + i) (rest ! i) = Inr (rs' ! i)"
  proof (intro allI impI)
    fix i assume "i < length rest"
    then have "Suc i < length (move # rest)" by simp
    with Cons.prems(2)
    have "svc (length (calls st) + Suc i) ((move # rest) ! Suc i) = Inr (rs ! Suc i)"
      by blast
    then show "svc (length (calls st) + 1 + i) (rest ! i) = Inr (rs' ! i)"
      unfolding rs by simp
  qed
  show ?case
  proof (cases "ok r")
    case True
    let ?st = "st\<lparr>calls := calls st @ [move], successfulMoves := successfulMoves st @ [move]\<rparr>"
    have "\<forall>i < length rest. svc (length (calls ?st) + i) (rest ! i) = Inr (rs' ! i)"
      using step by simp
    from Cons.IH[OF len this] r True show ?thesis unfolding rs by simp
  next
    case False
    let ?st = "st\<lparr>calls := calls st @ [move], errors := errors st @ [(move, r)]\<rparr>"
    have "\<forall>i < length rest. svc (length (calls ?st) + i) (rest ! i) = Inr (rs' ! i)"
      using step by simp
    from Cons.IH[OF len this] r False show ?thesis unfolding rs by simp
  qed
qed

lemma executeMoves_calls_prefix:
  "\<exists>n \<le> length moves. calls (snd (executeMoves svc moves st)) = calls st @ take n moves"
proof (induction moves arbitrary: st)
  case Nil
  then show ?case by simp
next
  case (Cons move rest)
  show ?case
  proof (cases "svc (length (calls st)) move")
    case (Inl e)
    then have "calls (snd (executeMoves svc (move # rest) st)) = calls st @ take 1 (move # rest)"
      by simp
    then show ?thesis by (metis One_nat_def Suc_leI length_Cons zero_less_Suc)
  next
    case (Inr r)
    let ?st = "if ok r
               then st\<lparr>calls := calls st @ [move], successfulMoves := successfulMoves st @ [move]\<rparr>
               else st\<lparr>calls := calls st @ [move], errors := errors st @ [(move, r)]\<rparr>"
    from Cons.IH[of ?st] obtain n where n: "n \<le> length rest"
        "calls (snd (executeMoves svc rest ?st)) = calls ?st @ take n rest" by blast
    have "executeMoves svc (move # rest) st = executeMoves svc rest ?st"
      using Inr by simp
    with n have "calls (snd (executeMoves svc (move # rest) st)) =
                   calls st @ take (Suc n) (move # rest)"
      by simp
    with n(1) show ?thesis by (metis Suc_le_mono length_Cons)
  qed
qed

lemma executeMoves_rejected:
  "n < length moves \<Longrightarrow> length rs = n \<Longrightarrow>
   \<forall>i < n. svc (length (calls st) + i) (moves ! i) = Inr (rs ! i) \<Longrightarrow>
   svc (length (calls st) + n) (moves ! n) = Inl e \<Longrightarrow>
   executeMoves svc moves st =
     (Some e, st\<lparr>calls := calls st @ take (Suc n) moves,
                 successfulMoves :=
                   successfulMoves st
                     @ map fst (filter (\<lambda>p. ok (snd p)) (zip (take n moves) rs)),
                 errors := errors st @ filter (\<lambda>p. \<not> ok (snd p)) (zip (take n moves) rs)\<rparr>)"
proof (induction moves arbitrary: st n rs)
  case Nil
  then show ?case by simp
next
  case (Cons move rest)
  show ?case
  proof (cases n)
    case 0
    with Cons.prems show ?thesis by simp
  next
    case (Suc n')
    with Cons.prems(2) obtain r rs' where rs: "rs = r # rs'" "length rs' = n'"
      by (cases rs) auto
    from Cons.prems(3) Suc have r: "svc (length (calls st)) move = Inr r"
      unfolding rs by force
    have n': "n' < length rest" using Cons.prems(1) Suc by simp
    have step: "\<forall>i < n'. svc (length (calls st) + 1 + i) (rest ! i) = Inr (rs' ! i)"
    proof (intro allI impI)
      fix i assume "i < n'"
      then have "Suc i < n" using Suc by simp
      with Cons.prems(3)
      have "svc (length (calls st) + Suc i) ((move # rest) ! Suc i) = Inr (rs ! Suc i)"
        by blast
      then show "svc (length (calls st) + 1 + i) (rest ! i) = Inr (rs' ! i)"
        unfolding rs by simp
    qed
    have last: "svc (length (calls st) + 1 + n') (rest ! n') = Inl e"
      using Cons.prems(4) Suc by simp
    show ?thesis
    proof (cases "ok r")
      case True
      let ?st = "st\<lparr>calls := calls st @ [move], successfulMoves := successfulMoves st @ [move]\<rparr>"
      have a: "\<forall>i < n'. svc (length (calls ?st) + i) (rest ! i) = Inr (rs' ! i)"
        using step by simp
      have b: "svc (length (calls ?st) + n') (rest ! n') = Inl e"
        using last by simp
      from Cons.IH[OF n' rs(2) a b] r True Suc show ?thesis unfolding rs by simp
    next
      case False
      let ?st = "st\<lparr>calls := calls st @ [move], errors := errors st @ [(move, r)]\<rparr>"
      have a: "\<forall>i < n'. svc (length (calls ?st) + i) (rest ! i) = Inr (rs' ! i)"
        using step by simp
      have b: "svc (length (calls ?st) + n') (rest ! n') = Inl e"
        using last by simp
      from Cons.IH[OF n' rs(2) a b] r False Suc show ?thesis unfolding rs by simp
    qed
  qed
qed

text \<open>
  C9, as the code has it. Whatever the collaborator does, the requests sent are a
  leading part of the planned list, each move at most once and in list order. When the
  collaborator answers every request, with \<open>ok\<close> or without, every move is sent
  exactly once in list order; the moves answered \<open>ok\<close> are the recorded successes and
  the others are the recorded failures, each failure with its whole move (channel id,
  origin, destination) and the answer; a failure does not end the loop, and successes
  and failures together are as many as the planned moves. A request that is rejected
  instead of answered is not caught: when request \<open>n\<close> is the first to be rejected, the
  loop ends with that exception, the requests sent are the first \<open>n + 1\<close> moves and no
  later move is attempted, the \<open>n\<close> moves before it stay classified as they were, and
  the rejected move is recorded neither as a success nor as a failure.
\<close>

theorem executeMoves_classifies:
  "(\<exists>n \<le> length moves.
       calls (snd (executeMoves svc moves \<lparr>calls = [], successfulMoves = [], errors = []\<rparr>))
         = take n moves) \<and>
   (length rs = length moves \<and> (\<forall>i < length moves. svc i (moves ! i) = Inr (rs ! i)) \<longrightarrow>
      executeMoves svc moves \<lparr>calls = [], successfulMoves = [], errors = []\<rparr> =
        (None, \<lparr>calls = moves,
                successfulMoves = map fst (filter (\<lambda>p. ok (snd p)) (zip moves rs)),
                errors = filter (\<lambda>p. \<not> ok (snd p)) (zip moves rs)\<rparr>) \<and>
      length (map fst (filter (\<lambda>p. ok (snd p)) (zip moves rs)))
        + length (filter (\<lambda>p. \<not> ok (snd p)) (zip moves rs)) = length moves) \<and>
   (k < length moves \<and> length qs = k \<and> (\<forall>i < k. svc i (moves ! i) = Inr (qs ! i))
      \<and> svc k (moves ! k) = Inl e \<longrightarrow>
      executeMoves svc moves \<lparr>calls = [], successfulMoves = [], errors = []\<rparr> =
        (Some e, \<lparr>calls = take (Suc k) moves,
                  successfulMoves = map fst (filter (\<lambda>p. ok (snd p)) (zip (take k moves) qs)),
                  errors = filter (\<lambda>p. \<not> ok (snd p)) (zip (take k moves) qs)\<rparr>))"
proof (intro conjI impI)
  assume "k < length moves \<and> length qs = k \<and> (\<forall>i < k. svc i (moves ! i) = Inr (qs ! i))
      \<and> svc k (moves ! k) = Inl e"
  then show "executeMoves svc moves \<lparr>calls = [], successfulMoves = [], errors = []\<rparr> =
        (Some e, \<lparr>calls = take (Suc k) moves,
                  successfulMoves = map fst (filter (\<lambda>p. ok (snd p)) (zip (take k moves) qs)),
                  errors = filter (\<lambda>p. \<not> ok (snd p)) (zip (take k moves) qs)\<rparr>)"
    using executeMoves_rejected[of k moves qs svc
            "\<lparr>calls = [], successfulMoves = [], errors = []\<rparr>" e]
    by simp
next
  show "\<exists>n \<le> length moves.
       calls (snd (executeMoves svc moves \<lparr>calls = [], successfulMoves = [], errors = []\<rparr>))
         = take n moves"
    using executeMoves_calls_prefix[of moves svc "\<lparr>calls = [], successfulMoves = [], errors = []\<rparr>"]
    by simp
next
  assume a: "length rs = length moves \<and> (\<forall>i < length moves. svc i (moves ! i) = Inr (rs ! i))"
  then show "executeMoves svc moves \<lparr>calls = [], successfulMoves = [], errors = []\<rparr> =
        (None, \<lparr>calls = moves,
                successfulMoves = map fst (filter (\<lambda>p. ok (snd p)) (zip moves rs)),
                errors = filter (\<lambda>p. \<not> ok (snd p)) (zip moves rs)\<rparr>)"
    using executeMoves_answered[of rs moves svc "\<lparr>calls = [], successfulMoves = [], errors = []\<rparr>"]
    by simp
  from a have "length (zip moves rs) = length moves" by simp
  then show "length (map fst (filter (\<lambda>p. ok (snd p)) (zip moves rs)))
        + length (filter (\<lambda>p. \<not> ok (snd p)) (zip moves rs)) = length moves"
    using sum_length_filter_compl[of "\<lambda>p. ok (snd p)" "zip moves rs"] by simp
qed

text \<open>
  Three moves and a collaborator that refuses the second with \<open>ok: false\<close> and
  accepts the others.
\<close>

definition moveOf :: "string \<Rightarrow> SidebarMove" where
  "moveOf c = \<lparr>channelId = c, fromSidebarSectionId = Some ''s1'', toSidebarSectionId = ''s2''\<rparr>"

definition accepted :: MoveResult where
  "accepted = \<lparr>ok = True, move_error = None\<rparr>"

definition refused :: MoveResult where
  "refused = \<lparr>ok = False, move_error = Some ''channel_not_found''\<rparr>"

definition refusesSecond :: RelocationService where
  "refusesSecond i move = Inr (if i = 1 then refused else accepted)"

text \<open>A collaborator that accepts the first request and whose second request is rejected.\<close>

definition rejectsSecond :: RelocationService where
  "rejectsSecond i move = (if i = 1 then Inl (Error ''socket hang up'') else Inr accepted)"

text \<open>
  The witness: the second of three moves is refused and the third is still sent; and
  when the second request is rejected instead, the third move is never sent.
\<close>

theorem executeMoves_classifies_witness:
  "length [accepted, refused, accepted] = length [moveOf ''C1'', moveOf ''C2'', moveOf ''C3''] \<and>
   refusesSecond 0 (moveOf ''C1'') = Inr accepted \<and>
   refusesSecond 1 (moveOf ''C2'') = Inr refused \<and>
   refusesSecond 2 (moveOf ''C3'') = Inr accepted \<and>
   executeMoves refusesSecond [moveOf ''C1'', moveOf ''C2'', moveOf ''C3'']
       \<lparr>calls = [], successfulMoves = [], errors = []\<rparr> =
     (None, \<lparr>calls = [moveOf ''C1'', moveOf ''C2'', moveOf ''C3''],
             successfulMoves = [moveOf ''C1'', moveOf ''C3''],
             errors = [(moveOf ''C2'', refused)]\<rparr>) \<and>
   (1::nat) < length [moveOf ''C1'', moveOf ''C2'', moveOf ''C3''] \<and>
   length [accepted] = (1::nat) \<and>
   rejectsSecond 0 (moveOf ''C1'') = Inr accepted \<and>
   rejectsSecond 1 (moveOf ''C2'') = Inl (Error ''socket hang up'') \<and>
   executeMoves rejectsSecond [moveOf ''C1'', moveOf ''C2'', moveOf ''C3'']
       \<lparr>calls = [], successfulMoves = [], errors = []\<rparr> =
     (Some (Error ''socket hang up''),
      \<lparr>calls = [moveOf ''C1'', moveOf ''C2''], successfulMoves = [moveOf ''C1''],
        errors = []\<rparr>)"
proof -
  let ?moves = "[moveOf ''C1'', moveOf ''C2'', moveOf ''C3'']"
  let ?rs = "[accepted, refused, accepted]"
  have k: "(1::nat) < length ?moves" by simp
  have q: "length [accepted] = (1::nat)" by simp
  have b: "\<forall>i < 1. rejectsSecond i (?moves ! i) = Inr ([accepted] ! i)"
    by (simp add: rejectsSecond_def)
  have c: "rejectsSecond 1 (?moves ! 1) = Inl (Error ''socket hang up'')"
    by (simp add: rejectsSecond_def)
  from executeMoves_classifies[of ?moves rejectsSecond ?rs 1 "[accepted]" "Error ''socket hang up''"]
    k q b c
  have "executeMoves rejectsSecond ?moves \<lparr>calls = [], successfulMoves = [], errors = []\<rparr> =
        (Some (Error ''socket hang up''),
         \<lparr>calls = take (Suc 1) ?moves,
           successfulMoves = map fst (filter (\<lambda>p. ok (snd p)) (zip (take 1 ?moves) [accepted])),
           errors = filter (\<lambda>p. \<not> ok (snd p)) (zip (take 1 ?moves) [accepted])\<rparr>)"
    by blast
  then have rej: "executeMoves rejectsSecond ?moves \<lparr>calls = [], successfulMoves = [], errors = []\<rparr> =
     (Some (Error ''socket hang up''),
      \<lparr>calls = [moveOf ''C1'', moveOf ''C2''], successfulMoves = [moveOf ''C1''],
        errors = []\<rparr>)"
    by (simp add: accepted_def)
  have l: "length ?rs = length ?moves" by simp
  have a: "\<forall>i < length ?moves. refusesSecond i (?moves ! i) = Inr (?rs ! i)"
    by (auto simp: refusesSecond_def less_Suc_eq)
  from executeMoves_classifies[of ?moves refusesSecond ?rs] l a
  have "executeMoves refusesSecond ?moves \<lparr>calls = [], successfulMoves = [], errors = []\<rparr> =
        (None, \<lparr>calls = ?moves,
                successfulMoves = map fst (filter (\<lambda>p. ok (snd p)) (zip ?moves ?rs)),
                errors = filter (\<lambda>p. \<not> ok (snd p)) (zip ?moves ?rs)\<rparr>)"
    by blast
  then have ans: "executeMoves refusesSecond ?moves
       \<lparr>calls = [], successfulMoves = [], errors = []\<rparr> =
     (None, \<lparr>calls = ?moves, successfulMoves = [moveOf ''C1'', moveOf ''C3''],
             errors = [(moveOf ''C2'', refused)]\<rparr>)"
    by (simp add: accepted_def refused_def)
  have "refusesSecond 0 (moveOf ''C1'') = Inr accepted"
       "refusesSecond 1 (moveOf ''C2'') = Inr refused"
       "refusesSecond 2 (moveOf ''C3'') = Inr accepted"
       "rejectsSecond 0 (moveOf ''C1'') = Inr accepted"
       "rejectsSecond 1 (moveOf ''C2'') = Inl (Error ''socket hang up'')"
    by (simp_all add: refusesSecond_def rejectsSecond_def)
  with ans rej l k q show ?thesis by simp
qed

text \<open>
  C9, as the claim has it, fails when a request is rejected: the first of two moves is
  sent, the exception leaves the loop, the second move is never sent, and nothing is
  recorded as a success or as a failure.
\<close>

definition socketError :: RelocationService where
  "socketError i move = Inl (Error ''socket hang up'')"

theorem executeMoves_rejected_counterexample:
  "executeMoves socketError [moveOf ''C1'', moveOf ''C2'']
       \<lparr>calls = [], successfulMoves = [], errors = []\<rparr> =
     (Some (Error ''socket hang up''),
      \<lparr>calls = [moveOf ''C1''], successfulMoves = [], errors = []\<rparr>)"
  by (simp add: socketError_def)

section \<open>Runs without the write flag\<close>

lemma loadRules_not_Organised: "loadRules secs raw \<noteq> Inl (Organised s e)"
  by (induction raw) (auto split: option.splits sum.splits)

lemma loadSnapshot_not_Organised: "loadSnapshot w args \<noteq> Inl (Organised s e)"
  unfolding loadSnapshot_def
  by (auto simp: Let_def loadRules_not_Organised split: option.splits sum.splits if_splits)

lemma main_without_write:
  assumes "''--write'' \<notin> set args"
  shows "snd (main w args) = []" and "fst (main w args) \<noteq> Organised s e"
  using assms loadSnapshot_not_Organised[of w args s e] unfolding main_def
  by (auto simp: Let_def split: sum.splits prod.splits option.splits)

lemma main_dry_run:
  assumes "''--write'' \<notin> set args"
    and "loadSnapshot w args = Inr (rules, secs, chans)"
    and "snd (calculateMoves rules secs chans) \<noteq> []"
  shows "main w args = (DryRun (snd (calculateMoves rules secs chans)), [])"
  using assms unfolding main_def
  by (auto simp: Let_def split: sum.splits prod.splits option.splits)

lemma main_early_exit:
  assumes "loadSnapshot w args = Inl r"
  shows "main w args = (r, [])"
  using assms unfolding main_def by (simp add: Let_def)

lemma main_nothing_to_move:
  assumes "loadSnapshot w args = Inr (rules, secs, chans)"
    and "snd (calculateMoves rules secs chans) = []"
  shows "main w args = (AlreadyOrganised (fst (calculateMoves rules secs chans)), [])"
  using assms unfolding main_def
  by (auto simp: Let_def split: sum.splits prod.splits option.splits)

lemma loadRules_exits:
  "loadRules secs raw = Inl r \<Longrightarrow> (\<exists>x. r = SectionNotFound x) \<or> (\<exists>e. r = Crashed e)"
  by (induction raw arbitrary: r) (auto split: option.splits sum.splits)

lemma loadSnapshot_exits:
  assumes "loadSnapshot w args = Inl r"
  shows "(\<exists>f. r = RulesFileUnreadable f) \<or> r = MissingEnvironment \<or> r = CannotConnect \<or>
         (\<exists>x. r = SectionNotFound x) \<or> (\<exists>e. r = Crashed e) \<or> r = RuleSuggestions"
  using assms unfolding loadSnapshot_def
  by (auto simp: Let_def split: option.splits sum.splits if_splits dest: loadRules_exits)

text \<open>
  C2, as the code has it. A run whose arguments do not contain \<open>--write\<close> sends no
  request to \<open>SlackClient.sidebarMove\<close>, whatever the rules file, the environment and
  the answers of Slack are, and it never ends with the report of the write loop. When
  such a run gets as far as a snapshot with moves to make, it ends with the dry-run
  report of exactly the planned moves. When it gets as far as a snapshot and no move is
  planned, it ends with the report that the sidebar is already organised. When it ends
  before there is a snapshot, it ends with the report of that exit, which is one of:
  rules file unreadable, credentials missing, no connection, section of a rule not
  found, an exception, or the rule suggestions for a run that loaded no rule.
\<close>

theorem dry_run_sends_nothing:
  assumes "''--write'' \<notin> set args"
  shows "snd (main w args) = [] \<and>
         (\<forall>s e. fst (main w args) \<noteq> Organised s e) \<and>
         (\<forall>rules secs chans.
             loadSnapshot w args = Inr (rules, secs, chans)
               \<and> snd (calculateMoves rules secs chans) \<noteq> [] \<longrightarrow>
             main w args = (DryRun (snd (calculateMoves rules secs chans)), [])) \<and>
         (\<forall>rules secs chans.
             loadSnapshot w args = Inr (rules, secs, chans)
               \<and> snd (calculateMoves rules secs chans) = [] \<longrightarrow>
             main w args = (AlreadyOrganised (fst (calculateMoves rules secs chans)), [])) \<and>
         (\<forall>r. loadSnapshot w args = Inl r \<longrightarrow>
             main w args = (r, []) \<and>
             ((\<exists>f. r = RulesFileUnreadable f) \<or> r = MissingEnvironment \<or> r = CannotConnect \<or>
              (\<exists>x. r = SectionNotFound x) \<or> (\<exists>e. r = Crashed e) \<or> r = RuleSuggestions))"
proof (intro conjI allI impI)
  show "snd (main w args) = []"
    using assms by (rule main_without_write)
  show "fst (main w args) \<noteq> Organised s e" for s e
    using assms by (rule main_without_write)
  show "main w args = (DryRun (snd (calculateMoves rules secs chans)), [])"
    if "loadSnapshot w args = Inr (rules, secs, chans)
          \<and> snd (calculateMoves rules secs chans) \<noteq> []" for rules secs chans
    using assms that by (blast intro: main_dry_run)
  show "main w args = (AlreadyOrganised (fst (calculateMoves rules secs chans)), [])"
    if "loadSnapshot w args = Inr (rules, secs, chans)
          \<and> snd (calculateMoves rules secs chans) = []" for rules secs chans
    using that by (blast intro: main_nothing_to_move)
  show "main w args = (r, [])" if "loadSnapshot w args = Inl r" for r
    using that by (rule main_early_exit)
  show "(\<exists>f. r = RulesFileUnreadable f) \<or> r = MissingEnvironment \<or> r = CannotConnect \<or>
        (\<exists>x. r = SectionNotFound x) \<or> (\<exists>e. r = Crashed e) \<or> r = RuleSuggestions"
    if "loadSnapshot w args = Inl r" for r
    using that by (rule loadSnapshot_exits)
qed

text \<open>
  A world for the examples: the rules file \<open>rules.json\<close> holds the rule for
  \<open>cust-\<close>, the credentials are set, Slack answers with the two sections and the one
  channel of the small workspace, and accepts every move.
\<close>

definition exampleWorld :: World where
  "exampleWorld =
     \<lparr>readRules = (\<lambda>f. if f = ''rules.json''
          then Some [\<lparr>rule_type = ''prefix'', sidebar_section = ''Customers'',
                      rule_prefix = Some ''cust-'', rule_suffix = None, rule_keyword = None\<rparr>]
          else None),
      SLACK_WORKSPACE = Some ''acme'',
      SLACK_XOXC_TOKEN = Some ''xoxc-1'',
      SLACK_XOXD_TOKEN = Some ''xoxd-1'',
      ping = Inr True,
      getSidebarList = Inr [\<lparr>channel_section_id = ''s1'', json_name = ''Channels'',
                              json_type = ''standard'', channel_ids = [''C1'']\<rparr>,
                            \<lparr>channel_section_id = ''s2'', json_name = ''Customers'',
                              json_type = ''standard'', channel_ids = []\<rparr>],
      getChannels = Inr [acme],
      sidebarMove = (\<lambda>i move. Inr accepted)\<rparr>"

lemma loadSnapshot_example:
  "loadSnapshot exampleWorld [''rules.json''] = Inr ([custRule], twoSections, [(''C1'', acme)])"
  by (simp add: loadSnapshot_def exampleWorld_def startsWith_def truthy_def fromJSON_def
      SidebarSection_fromJSON_def channelsMap_def acme_def custRule_def twoSections_def)

lemma main_write_example:
  "main exampleWorld [''rules.json'', ''--write''] = (Organised [acmeMove] [], [acmeMove])"
proof -
  have "loadSnapshot exampleWorld [''rules.json'', ''--write'']
          = Inr ([custRule], twoSections, [(''C1'', acme)])"
    by (simp add: loadSnapshot_def exampleWorld_def startsWith_def truthy_def fromJSON_def
        SidebarSection_fromJSON_def channelsMap_def acme_def custRule_def twoSections_def)
  then show ?thesis
    by (simp add: main_def calculateMoves_acme) (simp add: exampleWorld_def accepted_def)
qed

text \<open>
  Two more worlds: in the first the channel already sits in the section \<open>Customers\<close>,
  in the second Slack does not accept the credentials.
\<close>

definition organisedSections :: "SidebarSection list" where
  "organisedSections =
     [\<lparr>section_id = ''s1'', section_name = ''Channels'', channelIds = []\<rparr>,
      \<lparr>section_id = ''s2'', section_name = ''Customers'', channelIds = [''C1'']\<rparr>]"

definition organisedWorld :: World where
  "organisedWorld =
     exampleWorld\<lparr>getSidebarList :=
       Inr [\<lparr>channel_section_id = ''s1'', json_name = ''Channels'',
              json_type = ''standard'', channel_ids = []\<rparr>,
            \<lparr>channel_section_id = ''s2'', json_name = ''Customers'',
              json_type = ''standard'', channel_ids = [''C1'']\<rparr>]\<rparr>"

definition offlineWorld :: World where
  "offlineWorld = exampleWorld\<lparr>ping := Inr False\<rparr>"

lemma loadSnapshot_organised:
  "loadSnapshot organisedWorld [''rules.json'']
     = Inr ([custRule], organisedSections, [(''C1'', acme)])"
  by (simp add: loadSnapshot_def organisedWorld_def exampleWorld_def startsWith_def truthy_def
      fromJSON_def SidebarSection_fromJSON_def channelsMap_def acme_def custRule_def
      organisedSections_def)

lemma calculateMoves_organised:
  "calculateMoves [custRule] organisedSections [(''C1'', acme)] = (1, [])"
  by (simp add: calculateMoves_def planChannel_def findRule_def startsWith_def ToString_def
      getSidebarSection_def includesChannel_def acme_def custRule_def organisedSections_def)

lemma loadSnapshot_offline:
  "loadSnapshot offlineWorld [''rules.json''] = Inl CannotConnect"
  by (simp add: loadSnapshot_def offlineWorld_def exampleWorld_def startsWith_def truthy_def)

text \<open>
  The witness: without the flag, the first world ends in the dry-run report, the world
  that is already organised ends in the report of that, and the world without a
  connection ends at the connection test.
\<close>

theorem dry_run_sends_nothing_witness:
  "''--write'' \<notin> set [''rules.json''] \<and>
   loadSnapshot exampleWorld [''rules.json''] = Inr ([custRule], twoSections, [(''C1'', acme)]) \<and>
   snd (calculateMoves [custRule] twoSections [(''C1'', acme)]) \<noteq> [] \<and>
   main exampleWorld [''rules.json''] = (DryRun [acmeMove], []) \<and>
   loadSnapshot organisedWorld [''rules.json'']
     = Inr ([custRule], organisedSections, [(''C1'', acme)]) \<and>
   snd (calculateMoves [custRule] organisedSections [(''C1'', acme)]) = [] \<and>
   main organisedWorld [''rules.json''] = (AlreadyOrganised 1, []) \<and>
   loadSnapshot offlineWorld [''rules.json''] = Inl CannotConnect \<and>
   main offlineWorld [''rules.json''] = (CannotConnect, [])"
proof -
  have h: "''--write'' \<notin> set [''rules.json'']" by simp
  have m: "snd (calculateMoves [custRule] twoSections [(''C1'', acme)]) = [acmeMove]"
    by (simp add: calculateMoves_acme)
  from dry_run_sends_nothing[OF h, of exampleWorld] loadSnapshot_example m
  have a: "main exampleWorld [''rules.json'']
          = (DryRun (snd (calculateMoves [custRule] twoSections [(''C1'', acme)])), [])"
    by simp
  have n: "snd (calculateMoves [custRule] organisedSections [(''C1'', acme)]) = []"
    by (simp add: calculateMoves_organised)
  from dry_run_sends_nothing[OF h, of organisedWorld] loadSnapshot_organised n
  have "main organisedWorld [''rules.json'']
          = (AlreadyOrganised (fst (calculateMoves [custRule] organisedSections [(''C1'', acme)])),
             [])"
    by blast
  then have b: "main organisedWorld [''rules.json''] = (AlreadyOrganised 1, [])"
    by (simp add: calculateMoves_organised)
  from dry_run_sends_nothing[OF h, of offlineWorld] loadSnapshot_offline
  have c: "main offlineWorld [''rules.json''] = (CannotConnect, [])"
    by blast
  from h loadSnapshot_example m a n b c loadSnapshot_organised loadSnapshot_offline
  show ?thesis by simp
qed

text \<open>
  C2, as the claim has it, fails for a run that has nothing to move: with the rules
  file given and without \<open>--write\<close>, the world in which the channel already sits in its
  section ends with the report that the sidebar is already organised, not with the
  dry-run report.
\<close>

theorem dry_run_report_counterexample:
  "''--write'' \<notin> set [''rules.json''] \<and>
   readRules organisedWorld ''rules.json'' =
     Some [\<lparr>rule_type = ''prefix'', sidebar_section = ''Customers'',
             rule_prefix = Some ''cust-'', rule_suffix = None, rule_keyword = None\<rparr>] \<and>
   main organisedWorld [''rules.json''] = (AlreadyOrganised 1, [])"
  by (simp add: main_def loadSnapshot_organised calculateMoves_organised)
     (simp add: organisedWorld_def exampleWorld_def)

section \<open>The rate limiter, one caller at a time\<close>

lemma wait_immediate:
  "length (filter (\<lambda>t. now - t < intervalMs) timestamps) < limit \<Longrightarrow>
   wait limit intervalMs timestamps now =
     Some (filter (\<lambda>t. now - t < intervalMs) timestamps @ [now], now)"
  by (simp add: Let_def)

lemma wait_suspends:
  assumes "limit \<le> length (filter (\<lambda>t. now - t < intervalMs) timestamps)"
    and "filter (\<lambda>t. now - t < intervalMs) timestamps = oldest # rest"
  shows "wait limit intervalMs timestamps now =
           wait limit intervalMs (oldest # rest) (oldest + intervalMs)"
proof -
  have "oldest \<in> set (filter (\<lambda>t. now - t < intervalMs) timestamps)"
    unfolding assms(2) by simp
  then have "0 < oldest + intervalMs - now" by simp
  with assms show ?thesis by (subst wait.simps) (simp add: Let_def)
qed

lemma wait_admits:
  "0 < limit \<Longrightarrow>
   \<exists>ts t. wait limit intervalMs timestamps now = Some (ts @ [t], t) \<and> now \<le> t"
proof (induction limit intervalMs timestamps now rule: wait.induct)
  case (1 limit intervalMs timestamps now)
  let ?kept = "filter (\<lambda>t. now - t < intervalMs) timestamps"
  show ?case
  proof (cases "limit \<le> length ?kept")
    case False
    then have "wait limit intervalMs timestamps now = Some (?kept @ [now], now)"
      by (simp add: Let_def)
    then show ?thesis by blast
  next
    case True
    with 1(3) obtain oldest rest where k: "?kept = oldest # rest" by (cases ?kept) auto
    then have "oldest \<in> set ?kept" by simp
    then have pos: "0 < oldest + intervalMs - now" by simp
    from 1(1)[OF refl True k refl pos 1(3)]
    obtain ts t where r:
        "wait limit intervalMs ?kept (now + (oldest + intervalMs - now)) = Some (ts @ [t], t)"
        "now + (oldest + intervalMs - now) \<le> t" by blast
    have "wait limit intervalMs timestamps now =
            wait limit intervalMs ?kept (now + (oldest + intervalMs - now))"
      using True k pos by (subst wait.simps) (simp add: Let_def)
    with r pos show ?thesis by (intro exI[of _ ts] exI[of _ t]) simp
  qed
qed

lemma wait_two_per_second:
  "wait 2 1000 [] 0 = Some ([0], 0)"
  "wait 2 1000 [0] 0 = Some ([0, 0], 0)"
  "wait 2 1000 [0, 0] 0 = Some ([1000], 1000)"
  by simp_all

section \<open>Overflow sections\<close>

lemma overflowNumber_Some_iff:
  "overflowNumber b n = Some k \<longleftrightarrow>
     (\<exists>ds. ds \<noteq> [] \<and> list_all isDigit ds \<and> n = b @ '' ('' @ ds @ '')''
          \<and> k = parseDigits ds)"
proof
  assume a: "overflowNumber b n = Some k"
  let ?ds = "butlast (drop (length b + 2) n)"
  from a have sw: "startsWith n (b @ '' ('')" and ew: "endsWith n '')''"
    and ne: "?ds \<noteq> []" and dg: "list_all isDigit ?ds" and k: "k = parseDigits ?ds"
    unfolding overflowNumber_def by (auto simp: Let_def split: if_splits)
  from sw obtain r where r: "n = (b @ '' ('') @ r" unfolding startsWith_iff by blast
  then have dr: "drop (length b + 2) n = r" by simp
  with ne have rne: "r \<noteq> []" by auto
  from ew obtain q where q: "n = q @ '')''" unfolding endsWith_iff by blast
  have "last n = CHR '')''" unfolding q by simp
  moreover have "last n = last r" using r rne by simp
  ultimately have "last r = CHR '')''" by simp
  with rne have "r = butlast r @ '')''" by (metis append_butlast_last_id)
  with r dr have "n = b @ '' ('' @ ?ds @ '')''" by simp
  with ne dg k
  show "\<exists>ds. ds \<noteq> [] \<and> list_all isDigit ds \<and> n = b @ '' ('' @ ds @ '')''
            \<and> k = parseDigits ds"
    by blast
next
  assume "\<exists>ds. ds \<noteq> [] \<and> list_all isDigit ds \<and> n = b @ '' ('' @ ds @ '')''
            \<and> k = parseDigits ds"
  then obtain ds where ds: "ds \<noteq> []" "list_all isDigit ds" "n = b @ '' ('' @ ds @ '')''"
      "k = parseDigits ds" by blast
  have sw: "startsWith n (b @ '' ('')" unfolding startsWith_iff using ds(3) by simp
  have "n = (b @ '' ('' @ ds) @ '')''" using ds(3) by simp
  then have ew: "endsWith n '')''" unfolding endsWith_iff by blast
  have "drop (length b + 2) n = ds @ '')''" using ds(3) by simp
  then have "butlast (drop (length b + 2) n) = ds" by (simp add: butlast_append)
  with sw ew ds show "overflowNumber b n = Some k"
    unfolding overflowNumber_def by (simp add: Let_def)
qed

lemma overflowNumber_matches:
  "overflowNumber b n \<noteq> None \<longleftrightarrow>
     (\<exists>ds. ds \<noteq> [] \<and> list_all isDigit ds \<and> n = b @ '' ('' @ ds @ '')'')"
  using overflowNumber_Some_iff[of b n] by auto

lemma findOverflowSections_mset:
  "mset (findOverflowSections b secs) =
     mset (filter (\<lambda>s. \<exists>ds. ds \<noteq> [] \<and> list_all isDigit ds
                          \<and> section_name s = b @ '' ('' @ ds @ '')'') secs)"
proof -
  have "(\<lambda>s. overflowNumber b (section_name s) \<noteq> None) =
        (\<lambda>s. \<exists>ds. ds \<noteq> [] \<and> list_all isDigit ds \<and> section_name s = b @ '' ('' @ ds @ '')'')"
    by (rule ext) (rule overflowNumber_matches)
  then have "filter (\<lambda>s. overflowNumber b (section_name s) \<noteq> None) secs =
        filter (\<lambda>s. \<exists>ds. ds \<noteq> [] \<and> list_all isDigit ds
                       \<and> section_name s = b @ '' ('' @ ds @ '')'') secs"
    by (rule arg_cong)
  then show ?thesis unfolding findOverflowSections_def by (simp only: mset_sort)
qed

lemma findOverflowSections_sorted:
  "sorted (map (overflowKey b) (findOverflowSections b secs))"
  unfolding findOverflowSections_def by (rule sorted_sort_key)

lemma findOverflowSections_key:
  assumes "s \<in> set (findOverflowSections b secs)"
  shows "\<exists>ds. ds \<noteq> [] \<and> list_all isDigit ds \<and> section_name s = b @ '' ('' @ ds @ '')''
            \<and> overflowKey b s = parseDigits ds"
proof -
  from assms have "overflowNumber b (section_name s) \<noteq> None"
    unfolding findOverflowSections_def by simp
  then obtain k where k: "overflowNumber b (section_name s) = Some k" by blast
  then have "overflowKey b s = k" by (simp add: overflowKey_def)
  with k show ?thesis using overflowNumber_Some_iff[of b "section_name s" k] by blast
qed

lemma findOverflowSections_not_primary:
  assumes "s \<in> set (findOverflowSections b secs)"
  shows "section_name s \<noteq> b"
  using findOverflowSections_key[OF assms] by auto

text \<open>The sections of the example, with the primary section and a malformed name.\<close>

definition alertSections :: "SidebarSection list" where
  "alertSections =
     [\<lparr>section_id = ''s5'', section_name = ''Alerts (5)'', channelIds = []\<rparr>,
      \<lparr>section_id = ''s2'', section_name = ''Alerts (2)'', channelIds = []\<rparr>,
      \<lparr>section_id = ''s10'', section_name = ''Alerts (10)'', channelIds = []\<rparr>,
      \<lparr>section_id = ''sx'', section_name = ''Alerts (abc)'', channelIds = []\<rparr>,
      \<lparr>section_id = ''s1'', section_name = ''Alerts'', channelIds = []\<rparr>]"

lemma findOverflowSections_alerts:
  "findOverflowSections ''Alerts'' alertSections =
     [\<lparr>section_id = ''s2'', section_name = ''Alerts (2)'', channelIds = []\<rparr>,
      \<lparr>section_id = ''s5'', section_name = ''Alerts (5)'', channelIds = []\<rparr>,
      \<lparr>section_id = ''s10'', section_name = ''Alerts (10)'', channelIds = []\<rparr>]"
  by (simp add: alertSections_def findOverflowSections_def overflowNumber_def overflowKey_def
      startsWith_def endsWith_def isDigit_def parseDigits_def Let_def)

text \<open>
  C5. \<open>findOverflowSections\<close> returns the sections of the list whose name is the base
  name, a space, an opening parenthesis, one or more decimal digits and a closing
  parenthesis, each as often as it stands in the list and no other section; the result
  is in ascending order of the number the digits denote; a section named as the base
  name alone is not in it. For the sections named \<open>Alerts (5)\<close>, \<open>Alerts (2)\<close>,
  \<open>Alerts (10)\<close>, \<open>Alerts (abc)\<close> and \<open>Alerts\<close> the result is the sections 2, 5, 10
  in this order.
\<close>

theorem findOverflowSections_spec:
  "mset (findOverflowSections b secs) =
     mset (filter (\<lambda>s. \<exists>ds. ds \<noteq> [] \<and> list_all isDigit ds
                          \<and> section_name s = b @ '' ('' @ ds @ '')'') secs) \<and>
   sorted (map (overflowKey b) (findOverflowSections b secs)) \<and>
   (\<forall>s \<in> set (findOverflowSections b secs).
       \<exists>ds. ds \<noteq> [] \<and> list_all isDigit ds \<and> section_name s = b @ '' ('' @ ds @ '')''
          \<and> overflowKey b s = parseDigits ds) \<and>
   (\<forall>s \<in> set (findOverflowSections b secs). section_name s \<noteq> b) \<and>
   map section_id (findOverflowSections ''Alerts'' alertSections) = [''s2'', ''s5'', ''s10'']"
proof (intro conjI ballI)
  show "mset (findOverflowSections b secs) =
     mset (filter (\<lambda>s. \<exists>ds. ds \<noteq> [] \<and> list_all isDigit ds
                          \<and> section_name s = b @ '' ('' @ ds @ '')'') secs)"
    by (rule findOverflowSections_mset)
  show "sorted (map (overflowKey b) (findOverflowSections b secs))"
    by (rule findOverflowSections_sorted)
  show "\<exists>ds. ds \<noteq> [] \<and> list_all isDigit ds \<and> section_name s = b @ '' ('' @ ds @ '')''
          \<and> overflowKey b s = parseDigits ds"
    if "s \<in> set (findOverflowSections b secs)" for s
    using that by (rule findOverflowSections_key)
  show "section_name s \<noteq> b" if "s \<in> set (findOverflowSections b secs)" for s
    using that by (rule findOverflowSections_not_primary)
  show "map section_id (findOverflowSections ''Alerts'' alertSections) = [''s2'', ''s5'', ''s10'']"
    by (simp add: findOverflowSections_alerts)
qed

text \<open>
  The witness: the section \<open>Alerts (10)\<close> is in the result for \<open>Alerts\<close>, its name
  is not the base name, and its number is ten.
\<close>

theorem findOverflowSections_spec_witness:
  "\<lparr>section_id = ''s10'', section_name = ''Alerts (10)'', channelIds = []\<rparr>
     \<in> set (findOverflowSections ''Alerts'' alertSections) \<and>
   section_name \<lparr>section_id = ''s10'', section_name = ''Alerts (10)'', channelIds = []\<rparr>
     \<noteq> ''Alerts'' \<and>
   overflowKey ''Alerts'' \<lparr>section_id = ''s10'', section_name = ''Alerts (10)'', channelIds = []\<rparr>
     = parseDigits ''10'' \<and>
   parseDigits ''10'' = 10"
proof -
  let ?s = "\<lparr>section_id = ''s10'', section_name = ''Alerts (10)'', channelIds = []\<rparr>"
  have h: "?s \<in> set (findOverflowSections ''Alerts'' alertSections)"
    by (simp add: findOverflowSections_alerts)
  from findOverflowSections_spec[of "''Alerts''" alertSections] h
  have n: "section_name ?s \<noteq> ''Alerts''" by blast
  from findOverflowSections_spec[of "''Alerts''" alertSections] h
  obtain ds where ds: "section_name ?s = ''Alerts'' @ '' ('' @ ds @ '')''"
      "overflowKey ''Alerts'' ?s = parseDigits ds" by blast
  from ds(1) have "ds = ''10''" by simp
  with ds(2) have k: "overflowKey ''Alerts'' ?s = parseDigits ''10''" by simp
  have "parseDigits ''10'' = 10" by (simp add: parseDigits_def)
  with h n k show ?thesis by blast
qed

section \<open>The distributor\<close>

lemma firstWithCapacity_Some:
  "firstWithCapacity cs = Some k \<Longrightarrow> k < length cs \<and> 0 < cs ! k \<and> (\<forall>j < k. cs ! j = 0)"
proof (induction cs arbitrary: k)
  case Nil
  then show ?case by simp
next
  case (Cons c cs)
  show ?case
  proof (cases "0 < c")
    case True
    with Cons.prems show ?thesis by simp
  next
    case False
    with Cons.prems obtain k' where k': "firstWithCapacity cs = Some k'" "k = Suc k'" by auto
    from Cons.IH[OF k'(1)] False k'(2) show ?thesis by (auto simp: less_Suc_eq_0_disj)
  qed
qed

lemma firstWithCapacity_None:
  "firstWithCapacity cs = None \<Longrightarrow> \<forall>j < length cs. cs ! j = 0"
proof (induction cs)
  case Nil
  then show ?case by simp
next
  case (Cons c cs)
  then show ?case by (auto simp: less_Suc_eq_0_disj split: if_splits)
qed

lemma length_distribute: "length (distribute secs caps ms) = length ms"
  by (induction ms arbitrary: caps) (auto split: option.splits)

lemma distribute_within_capacity:
  "k < length caps \<Longrightarrow> assignedCount (map snd (distribute secs caps ms)) k \<le> caps ! k"
proof (induction ms arbitrary: caps)
  case Nil
  then show ?case by (simp add: assignedCount_def)
next
  case (Cons m ms)
  show ?case
  proof (cases "firstWithCapacity caps")
    case None
    with Cons show ?thesis by (simp add: assignedCount_def)
  next
    case (Some k0)
    then have k0: "k0 < length caps" "0 < caps ! k0" by (auto dest: firstWithCapacity_Some)
    let ?caps = "caps[k0 := caps ! k0 - 1]"
    from Cons.prems have "k < length ?caps" by simp
    from Cons.IH[OF this]
    have ih: "assignedCount (map snd (distribute secs ?caps ms)) k \<le> ?caps ! k" .
    show ?thesis
    proof (cases "k = k0")
      case True
      with ih k0 Some show ?thesis by (simp add: assignedCount_def)
    next
      case False
      with ih k0 Some show ?thesis by (simp add: assignedCount_def)
    qed
  qed
qed

lemma distribute_first_fit:
  "i < length ms \<Longrightarrow> snd (distribute secs caps ms ! i) = Some k \<Longrightarrow>
   k < length caps \<and>
   assignedCount (take i (map snd (distribute secs caps ms))) k < caps ! k \<and>
   (\<forall>j < k. assignedCount (take i (map snd (distribute secs caps ms))) j = caps ! j) \<and>
   fst (distribute secs caps ms ! i) = (ms ! i)\<lparr>toSidebarSectionId := section_id (secs ! k)\<rparr>"
proof (induction ms arbitrary: caps i)
  case Nil
  then show ?case by simp
next
  case (Cons m ms)
  show ?case
  proof (cases "firstWithCapacity caps")
    case None
    show ?thesis
    proof (cases i)
      case 0
      with Cons.prems None show ?thesis by simp
    next
      case (Suc i')
      with Cons.prems None have "i' < length ms" "snd (distribute secs caps ms ! i') = Some k"
        by auto
      from Cons.IH[OF this] Suc None show ?thesis by (simp add: assignedCount_def)
    qed
  next
    case (Some k0)
    then have k0: "k0 < length caps" "0 < caps ! k0" "\<forall>j < k0. caps ! j = 0"
      by (auto dest: firstWithCapacity_Some)
    let ?caps = "caps[k0 := caps ! k0 - 1]"
    show ?thesis
    proof (cases i)
      case 0
      with Cons.prems Some k0 show ?thesis by (simp add: assignedCount_def)
    next
      case (Suc i')
      with Cons.prems Some have "i' < length ms" "snd (distribute secs ?caps ms ! i') = Some k"
        by auto
      from Cons.IH[OF this] have ih: "k < length caps"
        "assignedCount (take i' (map snd (distribute secs ?caps ms))) k < ?caps ! k"
        "\<forall>j < k. assignedCount (take i' (map snd (distribute secs ?caps ms))) j = ?caps ! j"
        "fst (distribute secs ?caps ms ! i') =
           (ms ! i')\<lparr>toSidebarSectionId := section_id (secs ! k)\<rparr>"
        by auto
      have cnt: "assignedCount (take i (map snd (distribute secs caps (m # ms)))) j =
                 (if j = k0 then 1 else 0)
                   + assignedCount (take i' (map snd (distribute secs ?caps ms))) j"
        for j
        using Some Suc by (auto simp: assignedCount_def)
      have a: "assignedCount (take i (map snd (distribute secs caps (m # ms)))) k < caps ! k"
        unfolding cnt using ih(1,2) k0 by (cases "k = k0") auto
      have b: "\<forall>j < k. assignedCount (take i (map snd (distribute secs caps (m # ms)))) j
                          = caps ! j"
      proof (intro allI impI)
        fix j assume "j < k"
        with ih(3)
        have "assignedCount (take i' (map snd (distribute secs ?caps ms))) j = ?caps ! j"
          by blast
        then show "assignedCount (take i (map snd (distribute secs caps (m # ms)))) j = caps ! j"
          unfolding cnt using k0 by (cases "j = k0") auto
      qed
      have c: "fst (distribute secs caps (m # ms) ! i) =
                 ((m # ms) ! i)\<lparr>toSidebarSectionId := section_id (secs ! k)\<rparr>"
        using ih(4) Some Suc by simp
      from ih(1) a b c show ?thesis by blast
    qed
  qed
qed

lemma distribute_unassigned:
  "i < length ms \<Longrightarrow> snd (distribute secs caps ms ! i) = None \<Longrightarrow>
   fst (distribute secs caps ms ! i) = ms ! i \<and>
   (\<forall>j < length caps. assignedCount (take i (map snd (distribute secs caps ms))) j = caps ! j)"
proof (induction ms arbitrary: caps i)
  case Nil
  then show ?case by simp
next
  case (Cons m ms)
  show ?case
  proof (cases "firstWithCapacity caps")
    case None
    then have z: "\<forall>j < length caps. caps ! j = 0" by (rule firstWithCapacity_None)
    show ?thesis
    proof (cases i)
      case 0
      with Cons.prems None z show ?thesis by (simp add: assignedCount_def)
    next
      case (Suc i')
      with Cons.prems None have "i' < length ms" "snd (distribute secs caps ms ! i') = None"
        by auto
      from Cons.IH[OF this] Suc None show ?thesis by (simp add: assignedCount_def)
    qed
  next
    case (Some k0)
    then have k0: "k0 < length caps" "0 < caps ! k0"
      by (auto dest: firstWithCapacity_Some)
    let ?caps = "caps[k0 := caps ! k0 - 1]"
    show ?thesis
    proof (cases i)
      case 0
      with Cons.prems Some show ?thesis by simp
    next
      case (Suc i')
      with Cons.prems Some have "i' < length ms" "snd (distribute secs ?caps ms ! i') = None"
        by auto
      from Cons.IH[OF this] have ih:
        "fst (distribute secs ?caps ms ! i') = ms ! i'"
        "\<forall>j < length caps.
            assignedCount (take i' (map snd (distribute secs ?caps ms))) j = ?caps ! j"
        by auto
      have cnt: "assignedCount (take i (map snd (distribute secs caps (m # ms)))) j =
                 (if j = k0 then 1 else 0)
                   + assignedCount (take i' (map snd (distribute secs ?caps ms))) j"
        for j
        using Some Suc by (auto simp: assignedCount_def)
      have b: "\<forall>j < length caps.
                 assignedCount (take i (map snd (distribute secs caps (m # ms)))) j = caps ! j"
      proof (intro allI impI)
        fix j assume "j < length caps"
        with ih(2)
        have "assignedCount (take i' (map snd (distribute secs ?caps ms))) j = ?caps ! j"
          by blast
        then show "assignedCount (take i (map snd (distribute secs caps (m # ms)))) j = caps ! j"
          unfolding cnt using k0 by (cases "j = k0") auto
      qed
      have c: "fst (distribute secs caps (m # ms) ! i) = (m # ms) ! i"
        using ih(1) Some Suc by simp
      from b c show ?thesis by blast
    qed
  qed
qed

lemma availableCapacity_sum:
  "length (channelIds s) \<le> SECTION_CHANNEL_LIMIT \<Longrightarrow>
   availableCapacity s + length (channelIds s) = SECTION_CHANNEL_LIMIT"
  by (simp add: availableCapacity_def)

text \<open>
  C1, as the specified algorithm has it. Every move comes back, in its place. No
  candidate section is assigned more moves than its available capacity, which is
  \<open>500\<close> less its members and \<open>0\<close> for a section with 500 members or more; so for a
  section that holds at most 500 channels, the assigned moves and the members together
  are at most 500. A move is assigned to the first candidate in list order that has
  capacity left: when it goes to the candidate at position \<open>k\<close>, every candidate before
  \<open>k\<close> (the primary section first, then the overflow sections in their order) has by
  then been assigned as many moves as its capacity, and the move's destination is the id
  of candidate \<open>k\<close>. A move for which no candidate has capacity left is returned
  unchanged, and then every candidate is full.
\<close>

theorem distribute_respects_capacity:
  "length (distributeMovesAcrossSections moves secs) = length moves \<and>
   (\<forall>k < length secs.
       assignedCount (assignment moves secs) k \<le> availableCapacity (secs ! k) \<and>
       (length (channelIds (secs ! k)) \<le> SECTION_CHANNEL_LIMIT \<longrightarrow>
          assignedCount (assignment moves secs) k + length (channelIds (secs ! k))
            \<le> SECTION_CHANNEL_LIMIT)) \<and>
   (\<forall>i < length moves. \<forall>k. assignment moves secs ! i = Some k \<longrightarrow>
       k < length secs \<and>
       (\<forall>j < k. assignedCount (take i (assignment moves secs)) j = availableCapacity (secs ! j)) \<and>
       distributeMovesAcrossSections moves secs ! i =
         (moves ! i)\<lparr>toSidebarSectionId := section_id (secs ! k)\<rparr>) \<and>
   (\<forall>i < length moves. assignment moves secs ! i = None \<longrightarrow>
       (\<forall>j < length secs.
           assignedCount (take i (assignment moves secs)) j = availableCapacity (secs ! j)) \<and>
       distributeMovesAcrossSections moves secs ! i = moves ! i)"
proof (intro conjI allI impI)
  let ?caps = "map availableCapacity secs"
  let ?r = "distribute secs ?caps moves"
  show "length (distributeMovesAcrossSections moves secs) = length moves"
    by (simp add: distributeMovesAcrossSections_def length_distribute)
  show le: "assignedCount (assignment moves secs) k \<le> availableCapacity (secs ! k)"
    if "k < length secs" for k
    using that distribute_within_capacity[of k ?caps secs moves]
    by (simp add: assignment_def)
  show "assignedCount (assignment moves secs) k + length (channelIds (secs ! k))
            \<le> SECTION_CHANNEL_LIMIT"
    if "k < length secs" "length (channelIds (secs ! k)) \<le> SECTION_CHANNEL_LIMIT" for k
    using le[OF that(1)] availableCapacity_sum[OF that(2)] by simp
  {
    fix i k
    assume i: "i < length moves" and a: "assignment moves secs ! i = Some k"
    from i a have s: "snd (?r ! i) = Some k"
      by (simp add: assignment_def length_distribute)
    note ff = distribute_first_fit[OF i s]
    show "k < length secs" using ff by simp
    show "distributeMovesAcrossSections moves secs ! i =
         (moves ! i)\<lparr>toSidebarSectionId := section_id (secs ! k)\<rparr>"
      using ff i by (simp add: distributeMovesAcrossSections_def length_distribute)
    fix j assume "j < k"
    with ff show "assignedCount (take i (assignment moves secs)) j = availableCapacity (secs ! j)"
      by (simp add: assignment_def)
  }
  {
    fix i
    assume i: "i < length moves" and a: "assignment moves secs ! i = None"
    from i a have s: "snd (?r ! i) = None"
      by (simp add: assignment_def length_distribute)
    note un = distribute_unassigned[OF i s]
    show "distributeMovesAcrossSections moves secs ! i = moves ! i"
      using un i by (simp add: distributeMovesAcrossSections_def length_distribute)
    fix j assume "j < length secs"
    with un show "assignedCount (take i (assignment moves secs)) j = availableCapacity (secs ! j)"
      by (simp add: assignment_def)
  }
qed

text \<open>
  Three moves for a full primary section with two overflow sections, of which the first
  has room for one channel.
\<close>

definition filled :: "string \<Rightarrow> string \<Rightarrow> nat \<Rightarrow> SidebarSection" where
  "filled i n k = \<lparr>section_id = i, section_name = n, channelIds = replicate k ''ch''\<rparr>"

definition testSections :: "SidebarSection list" where
  "testSections = [filled ''s1'' ''Test'' 500, filled ''s2'' ''Test (2)'' 499,
                   filled ''s3'' ''Test (3)'' 0]"

definition testMoves :: "SidebarMove list" where
  "testMoves =
     [\<lparr>channelId = ''ch1'', fromSidebarSectionId = None, toSidebarSectionId = ''s1''\<rparr>,
      \<lparr>channelId = ''ch2'', fromSidebarSectionId = None, toSidebarSectionId = ''s1''\<rparr>,
      \<lparr>channelId = ''ch3'', fromSidebarSectionId = None, toSidebarSectionId = ''s1''\<rparr>]"

lemma assignment_test: "assignment testMoves testSections = [Some 1, Some 2, Some 2]"
  by (simp add: assignment_def testMoves_def testSections_def filled_def
      availableCapacity_def SECTION_CHANNEL_LIMIT_def)

lemma distribute_test:
  "map toSidebarSectionId (distributeMovesAcrossSections testMoves testSections)
     = [''s2'', ''s3'', ''s3'']"
  by (simp add: distributeMovesAcrossSections_def testMoves_def testSections_def filled_def
      availableCapacity_def SECTION_CHANNEL_LIMIT_def)

text \<open>
  The witness: the second move goes to the third candidate, after the primary section
  and the first overflow section are full; the first overflow section ends with 500
  channels.
\<close>

theorem distribute_respects_capacity_witness:
  "(1::nat) < length testSections \<and>
   length (channelIds (testSections ! 1)) \<le> SECTION_CHANNEL_LIMIT \<and>
   assignedCount (assignment testMoves testSections) 1 + length (channelIds (testSections ! 1))
     \<le> SECTION_CHANNEL_LIMIT \<and>
   (1::nat) < length testMoves \<and>
   assignment testMoves testSections ! 1 = Some 2 \<and>
   assignedCount (take 1 (assignment testMoves testSections)) 0
     = availableCapacity (testSections ! 0) \<and>
   assignedCount (take 1 (assignment testMoves testSections)) 1
     = availableCapacity (testSections ! 1) \<and>
   toSidebarSectionId (distributeMovesAcrossSections testMoves testSections ! 1) = ''s3''"
proof -
  have k: "(1::nat) < length testSections" by (simp add: testSections_def)
  have c: "length (channelIds (testSections ! 1)) \<le> SECTION_CHANNEL_LIMIT"
    by (simp add: testSections_def filled_def SECTION_CHANNEL_LIMIT_def)
  have i: "(1::nat) < length testMoves" by (simp add: testMoves_def)
  have a: "assignment testMoves testSections ! 1 = Some 2" by (simp add: assignment_test)
  note t = distribute_respects_capacity[of testMoves testSections]
  from t k c
  have r1: "assignedCount (assignment testMoves testSections) 1
              + length (channelIds (testSections ! 1)) \<le> SECTION_CHANNEL_LIMIT"
    by blast
  from t i a
  have r2: "\<forall>j < 2. assignedCount (take 1 (assignment testMoves testSections)) j
                       = availableCapacity (testSections ! j)"
    and r3: "distributeMovesAcrossSections testMoves testSections ! 1 =
               (testMoves ! 1)\<lparr>toSidebarSectionId := section_id (testSections ! 2)\<rparr>"
    by blast+
  from r2 have r20: "assignedCount (take 1 (assignment testMoves testSections)) 0
                       = availableCapacity (testSections ! 0)"
    and r21: "assignedCount (take 1 (assignment testMoves testSections)) 1
                       = availableCapacity (testSections ! 1)"
    by simp_all
  from r3 have r4: "toSidebarSectionId (distributeMovesAcrossSections testMoves testSections ! 1)
                      = ''s3''"
    by (simp add: testSections_def filled_def)
  from k c r1 i a r20 r21 r4 show ?thesis by blast
qed

text \<open>
  C1, as the claim has it, fails for a section that already holds more than 500
  channels: no move is assigned to it, and its members alone exceed the limit.
\<close>

theorem distribute_overfull_counterexample:
  "assignedCount (assignment [] [filled ''s1'' ''Test'' 510]) 0
     + length (channelIds ([filled ''s1'' ''Test'' 510] ! 0)) = 510 \<and>
   \<not> (assignedCount (assignment [] [filled ''s1'' ''Test'' 510]) 0
         + length (channelIds ([filled ''s1'' ''Test'' 510] ! 0)) \<le> SECTION_CHANNEL_LIMIT)"
  by (simp add: assignment_def assignedCount_def filled_def SECTION_CHANNEL_LIMIT_def)

end
